theory Spec2Isabelle
  imports Main "HOL-Library.AList"
begin

section \<open>The service cache of cache/service.go\<close>

text \<open>
  The cache keeps pointers to \<open>model.Service\<close> objects in several indices. Objects live
  in an explicit store \<open>h\<close> from addresses to values, so that two indices holding the same
  pointer share one object, and the in-place enrichment of \<open>fillServicePorts\<close> is a store
  update. Go pointers never dangle, so the store is a total function; the pointers held
  by the indices and by a batch are never nil (a nil would panic at its first field
  read), so they are plain addresses.
\<close>

subsection \<open>Objects\<close>

type_synonym ptr = nat

type_synonym error = string

text \<open>
  Modelled from the spec: \<open>model.ServicePort\<close> is declared in common/model, outside this
  file (the spec's \<open>portsOf\<close> yields an "ordered sequence of port"). The port is a
  \<open>uint32\<close> that this file only widens to \<open>uint64\<close> and prints, never computes with, so a
  natural number holds it.
\<close>

record ServicePort =
  Port :: nat
  Protocol :: string

text \<open>
  Modelled from the spec: \<open>model.Service\<close> is declared in common/model, outside this file.
  The fields are those this file reads or writes; the spec's data model (section 3)
  names them: identifier, namespace, name, reference, metadata, last-modified time stamp
  and the valid flag, and the lazily derived port list of 4.1. \<open>ModifyTime\<close> holds
  \<open>ModifyTime.Unix()\<close>, the seconds of the time stamp.
\<close>

record Service =
  ID :: string
  Name :: string
  Namespace :: string
  Reference :: string
  Meta :: "(string \<times> string) list"
  Valid :: bool
  ModifyTime :: int
  Ports :: string
  ServicePorts :: "ServicePort list"

type_synonym heap = "ptr \<Rightarrow> Service"

text \<open>
  Modelled from the spec: \<open>Service.IsAlias\<close> is declared in common/model, outside this
  file. The spec's data model gives an entity "an optional reference identifier denoting
  that this entity is an alias of another entity"; \<open>GetAliasFor\<close> of this file treats the
  empty reference as "no alias".
\<close>

definition IsAlias :: "Service \<Rightarrow> bool" where
  "IsAlias s = (Reference s \<noteq> '''')"

text \<open>
  Modelled from the spec: \<open>model.InstanceCount\<close> and \<open>model.NamespaceServiceCount\<close> are
  declared in common/model, outside this file. The spec's namespace aggregate is a
  "per-namespace count of live entities plus an instance-count rollup (total,
  healthy)"; the counts are natural numbers. \<open>InstanceCnt\<close> is a pointer in the source,
  nil in a fresh \<open>&model.NamespaceServiceCount{}\<close>.
\<close>

record InstanceCount =
  HealthyInstanceCount :: nat
  TotalInstanceCount :: nat

record NamespaceServiceCount =
  ServiceCount :: nat
  InstanceCnt :: "InstanceCount option"

subsection \<open>The concurrent map\<close>

text \<open>
  Modelled from the spec: \<open>utils.SyncMap\<close> is declared in common/utils, outside this file.
  The spec asks for "a concurrency-safe mapping abstraction supporting safe
  insert/delete/iterate". It is an association list: \<open>Store\<close> replaces the value of a
  key in place or appends the new key, \<open>Delete\<close> removes the key, and \<open>Range\<close> calls the
  function on the entries in the order of the list until it answers False. Go fixes no
  order of iteration; the theorems hold for every list, hence for every order.
\<close>

type_synonym ('k, 'v) SyncMap = "('k \<times> 'v) list"

definition NewSyncMap :: "('k, 'v) SyncMap" where
  "NewSyncMap = []"

definition Load :: "('k, 'v) SyncMap \<Rightarrow> 'k \<Rightarrow> 'v option" where
  "Load m k = map_of m k"

definition Store :: "'k \<Rightarrow> 'v \<Rightarrow> ('k, 'v) SyncMap \<Rightarrow> ('k, 'v) SyncMap" where
  "Store k v m = AList.update k v m"

definition Delete :: "'k \<Rightarrow> ('k, 'v) SyncMap \<Rightarrow> ('k, 'v) SyncMap" where
  "Delete k m = AList.delete k m"

definition LoadOrStore :: "'k \<Rightarrow> 'v \<Rightarrow> ('k, 'v) SyncMap \<Rightarrow> 'v \<times> ('k, 'v) SyncMap" where
  "LoadOrStore k v m = (case Load m k of Some a \<Rightarrow> (a, m) | None \<Rightarrow> (v, Store k v m))"

fun Range :: "('k \<Rightarrow> 'v \<Rightarrow> 'a \<Rightarrow> 'a \<times> bool) \<Rightarrow> ('k, 'v) SyncMap \<Rightarrow> 'a \<Rightarrow> 'a" where
  "Range f [] a = a"
| "Range f ((k, v) # m) a = (case f k v a of (a', cont) \<Rightarrow> if cont then Range f m a' else a')"

text \<open>A Go \<open>map[string]struct{}\<close> used as a set: a list without repetitions.\<close>

definition set_add :: "'a \<Rightarrow> 'a list \<Rightarrow> 'a list" where
  "set_add x xs = (if x \<in> set xs then xs else xs @ [x])"

subsection \<open>The alias bucket and the namespace listing bucket\<close>

text \<open>
  Modelled from the spec: \<open>serviceAliasBucket\<close> is declared in another file of package
  cache. The spec (4.2) gives its contract: link(alias, target), unlink(alias, target),
  aliasesOf(namespace, name), and purge(entity), which removes "all alias relationships
  touching this entity, in either direction"; linking and unlinking are idempotent. The
  bucket is the list of links (alias, target); an entity is named by its identifier.
\<close>

type_synonym serviceAliasBucket = "(ptr \<times> ptr) list"

definition newServiceAliasBucket :: serviceAliasBucket where
  "newServiceAliasBucket = []"

definition same_link :: "heap \<Rightarrow> ptr \<Rightarrow> ptr \<Rightarrow> ptr \<times> ptr \<Rightarrow> bool" where
  "same_link h a t l = (ID (h (fst l)) = ID (h a) \<and> ID (h (snd l)) = ID (h t))"

definition addServiceAlias :: "heap \<Rightarrow> ptr \<Rightarrow> ptr \<Rightarrow> serviceAliasBucket \<Rightarrow> serviceAliasBucket" where
  "addServiceAlias h a t b = (if list_ex (same_link h a t) b then b else b @ [(a, t)])"

definition delServiceAlias :: "heap \<Rightarrow> ptr \<Rightarrow> ptr \<Rightarrow> serviceAliasBucket \<Rightarrow> serviceAliasBucket" where
  "delServiceAlias h a t b = filter (\<lambda>l. \<not> same_link h a t l) b"

definition cleanServiceAlias :: "heap \<Rightarrow> ptr \<Rightarrow> serviceAliasBucket \<Rightarrow> serviceAliasBucket" where
  "cleanServiceAlias h s b =
     filter (\<lambda>l. ID (h (fst l)) \<noteq> ID (h s) \<and> ID (h (snd l)) \<noteq> ID (h s)) b"

definition getServiceAliases :: "heap \<Rightarrow> serviceAliasBucket \<Rightarrow> Service \<Rightarrow> ptr list" where
  "getServiceAliases h b aliasFor =
     map fst (filter (\<lambda>l. Namespace (h (snd l)) = Namespace aliasFor \<and>
                           Name (h (snd l)) = Name aliasFor) b)"

text \<open>
  Modelled from the spec: \<open>serviceNamespaceBucket\<close> is declared in another file of package
  cache. The spec (4.3) gives its contract: add(entity), remove(entity),
  list(namespace), listAll() and reloadRevision(), with "per-namespace ordered membership
  with an opaque revision token" that "is recomputed once per merge cycle (not per
  mutation)". The token is opaque: it is modelled by the membership it was computed
  from at the last reload.
\<close>

record serviceNamespaceBucket =
  members :: "(string \<times> ptr list) list"
  revision :: "(string \<times> string list) list"

definition newServiceNamespaceBucket :: serviceNamespaceBucket where
  "newServiceNamespaceBucket = \<lparr>members = [], revision = []\<rparr>"

definition addService :: "heap \<Rightarrow> ptr \<Rightarrow> serviceNamespaceBucket \<Rightarrow> serviceNamespaceBucket" where
  "addService h s b =
     (let old = (case map_of (members b) (Namespace (h s)) of None \<Rightarrow> [] | Some l \<Rightarrow> l)
      in b\<lparr>members := AList.update (Namespace (h s))
              (filter (\<lambda>p. ID (h p) \<noteq> ID (h s)) old @ [s]) (members b)\<rparr>)"

definition removeService :: "heap \<Rightarrow> ptr \<Rightarrow> serviceNamespaceBucket \<Rightarrow> serviceNamespaceBucket" where
  "removeService h s b =
     (case map_of (members b) (Namespace (h s)) of
        None \<Rightarrow> b
      | Some l \<Rightarrow> b\<lparr>members := AList.update (Namespace (h s))
                       (filter (\<lambda>p. ID (h p) \<noteq> ID (h s)) l) (members b)\<rparr>)"

definition reloadRevision :: "heap \<Rightarrow> serviceNamespaceBucket \<Rightarrow> serviceNamespaceBucket" where
  "reloadRevision h b =
     b\<lparr>revision := map (\<lambda>(ns, l). (ns, map (\<lambda>p. ID (h p)) l)) (members b)\<rparr>"

definition bucketListServices ::
  "serviceNamespaceBucket \<Rightarrow> string \<Rightarrow> (string \<times> string list) list \<times> ptr list" where
  "bucketListServices b ns =
     (revision b, case map_of (members b) ns of None \<Rightarrow> [] | Some l \<Rightarrow> l)"

subsection \<open>The cache\<close>

text \<open>
  The struct \<open>serviceCache\<close>. The alias bucket is the field \<open>alias\<close> of the source (the
  word is reserved here). \<open>revisionCh\<close> holds the messages sent on the channel, oldest
  first. \<open>lastMtime\<close> is the last-modified time kept by the base cache. The
  running total \<open>serviceCount\<close> is an \<open>int64\<close> that moves by at most the size of a
  batch per merge and stays far from the bounds, so it is an unbounded integer. The
  locks, the single-flight group and the collaborators are not state of the model: the
  collaborators are parameters of the operations that call them.
\<close>

record serviceCache =
  ids :: "(string, ptr) SyncMap"
  names :: "(string, (string, ptr) SyncMap) SyncMap"
  cl5Sid2Name :: "(string, string) SyncMap"
  cl5Names :: "(string, ptr) SyncMap"
  aliasBucket :: serviceAliasBucket
  serviceList :: serviceNamespaceBucket
  revisionCh :: "(string \<times> bool) list"
  disableBusiness :: bool
  needMeta :: bool
  pendingServices :: "(string, unit) SyncMap"
  namespaceServiceCnt :: "(string, NamespaceServiceCount) SyncMap"
  serviceCount :: int
  lastMtime :: int

text \<open>
  The instance cache, as the two queries this file makes of it:
  \<open>GetServicePorts\<close> and \<open>GetInstancesCountByServiceID\<close>.
\<close>

record InstanceCache =
  GetServicePorts :: "string \<Rightarrow> ServicePort list"
  GetInstancesCountByServiceID :: "string \<Rightarrow> InstanceCount"

text \<open>
  \<open>newServiceCache\<close>: the buckets are created, the maps are still nil (they are written
  as empty maps; \<open>initialize\<close> runs before any use) and the counters are zero.
\<close>

definition newServiceCache :: serviceCache where
  "newServiceCache =
     \<lparr>ids = [], names = [], cl5Sid2Name = [], cl5Names = [],
      aliasBucket = newServiceAliasBucket, serviceList = newServiceNamespaceBucket,
      revisionCh = [], disableBusiness = False, needMeta = False,
      pendingServices = [], namespaceServiceCnt = [], serviceCount = 0, lastMtime = 0\<rparr>"

text \<open>
  The option map of \<open>initialize\<close>: a value is a bool or something else, and the type
  assertion \<open>.(bool)\<close> yields False for a missing key and for a value of another type.
\<close>

datatype optval = BoolVal bool | OtherVal

definition asBool :: "optval option \<Rightarrow> bool" where
  "asBool v = (case v of Some (BoolVal b) \<Rightarrow> b | _ \<Rightarrow> False)"

definition initialize :: "serviceCache \<Rightarrow> (string \<times> optval) list option \<Rightarrow> serviceCache" where
  "initialize sc opt =
     (let sc1 = sc\<lparr>ids := NewSyncMap, names := NewSyncMap, cl5Sid2Name := NewSyncMap,
                    cl5Names := NewSyncMap, pendingServices := NewSyncMap,
                    namespaceServiceCnt := NewSyncMap\<rparr>
      in case opt of
           None \<Rightarrow> sc1
         | Some m \<Rightarrow> sc1\<lparr>disableBusiness := asBool (map_of m ''disableBusiness''),
                         needMeta := asBool (map_of m ''needMeta'')\<rparr>)"

text \<open>
  Modelled from the spec: \<open>baseCache\<close> is declared in another file of package cache. Of
  its state this file reads the last-modified time (\<open>LastMtime\<close>), kept in the field
  \<open>lastMtime\<close>, and its \<open>clear\<close> is called by \<open>clear\<close> below; the spec says that the reset
  rewinds the watermark.
\<close>

definition LastMtime :: "serviceCache \<Rightarrow> int" where
  "LastMtime sc = lastMtime sc"

definition baseCache_clear :: "serviceCache \<Rightarrow> serviceCache" where
  "baseCache_clear sc = sc\<lparr>lastMtime := 0\<rparr>"

text \<open>\<open>clear\<close>. The running total \<open>serviceCount\<close> is not reset by the source.\<close>

definition clear :: "serviceCache \<Rightarrow> serviceCache" where
  "clear sc =
     (baseCache_clear sc)
       \<lparr>ids := NewSyncMap, names := NewSyncMap, cl5Sid2Name := NewSyncMap,
        cl5Names := NewSyncMap, pendingServices := NewSyncMap,
        namespaceServiceCnt := NewSyncMap, aliasBucket := newServiceAliasBucket,
        serviceList := newServiceNamespaceBucket\<rparr>"

subsection \<open>Lookups and lazy enrichment\<close>

text \<open>\<open>strconv.FormatUint(n, 10)\<close> and \<open>strings.Join\<close>.\<close>

definition digit_char :: "nat \<Rightarrow> char" where
  "digit_char d = ''0123456789'' ! (d mod 10)"

function FormatUint :: "nat \<Rightarrow> string" where
  "FormatUint n = (if n < 10 then [digit_char n] else FormatUint (n div 10) @ [digit_char n])"
  by pat_completeness auto
termination
  by (relation "measure (\<lambda>n. n)") auto

fun Join :: "string list \<Rightarrow> string \<Rightarrow> string" where
  "Join [] sep = ''''"
| "Join [x] sep = x"
| "Join (x # y # ys) sep = x @ sep @ Join (y # ys) sep"

definition fillServicePorts :: "InstanceCache \<Rightarrow> heap \<Rightarrow> ptr \<Rightarrow> heap" where
  "fillServicePorts inst h svc =
     (if Ports (h svc) \<noteq> '''' then h
      else let ports = GetServicePorts inst (ID (h svc))
           in if length ports = 0 then h
              else let item = map (\<lambda>p. FormatUint (Port p)) ports
                   in h(svc := (h svc)\<lparr>ServicePorts := ports, Ports := Join item '',''\<rparr>))"

definition GetServiceByID ::
  "InstanceCache \<Rightarrow> heap \<Rightarrow> serviceCache \<Rightarrow> string \<Rightarrow> heap \<times> ptr option" where
  "GetServiceByID inst h sc sid =
     (if sid = '''' then (h, None)
      else case Load (ids sc) sid of
             None \<Rightarrow> (h, None)
           | Some svc \<Rightarrow> (fillServicePorts inst h svc, Some svc))"

text \<open>
  \<open>GetOrLoadServiceByID\<close>. The store's \<open>GetServiceByID\<close> is the parameter \<open>storage\<close>: it
  answers with a pointer (or nil) and an error (or nil). The single-flight group runs
  the closure once for a lone caller; its three results are dropped by the source.
\<close>

definition GetOrLoadServiceByID ::
  "(string \<Rightarrow> ptr option \<times> error option) \<Rightarrow> InstanceCache \<Rightarrow> heap \<Rightarrow> serviceCache \<Rightarrow> string
     \<Rightarrow> heap \<times> serviceCache \<times> ptr option" where
  "GetOrLoadServiceByID storage inst h sc sid =
     (if sid = '''' then (h, sc, None)
      else case Load (ids sc) sid of
             Some svc \<Rightarrow> (fillServicePorts inst h svc, sc, Some svc)
           | None \<Rightarrow>
               (let (svc, err) = storage sid;
                    sc1 = (if err = None \<and> svc \<noteq> None
                           then sc\<lparr>ids := Store (ID (h (the svc))) (the svc) (ids sc)\<rparr>
                           else sc)
                in case Load (ids sc1) sid of
                     None \<Rightarrow> (h, sc1, None)
                   | Some value \<Rightarrow> (fillServicePorts inst h value, sc1, Some value)))"

definition GetServiceByName ::
  "InstanceCache \<Rightarrow> heap \<Rightarrow> serviceCache \<Rightarrow> string \<Rightarrow> string \<Rightarrow> heap \<times> ptr option" where
  "GetServiceByName inst h sc name namespace =
     (if name = '''' \<or> namespace = '''' then (h, None)
      else case Load (names sc) namespace of
             None \<Rightarrow> (h, None)
           | Some spaces \<Rightarrow>
               (case Load spaces name of
                  None \<Rightarrow> (h, None)
                | Some svc \<Rightarrow> (fillServicePorts inst h svc, Some svc)))"

definition CleanNamespace :: "serviceCache \<Rightarrow> string \<Rightarrow> serviceCache" where
  "CleanNamespace sc namespace = sc\<lparr>names := Delete namespace (names sc)\<rparr>"

text \<open>
  \<open>IteratorServices\<close>. The visitor is a Go closure: it has a state of its own, reads the
  key and the object, and answers with a continue flag and an error (or nil). The
  variables \<open>cont\<close> and \<open>err\<close> of the source are part of what \<open>Range\<close> carries along.
\<close>

type_synonym 'st ServiceIterProc = "'st \<Rightarrow> string \<Rightarrow> Service \<Rightarrow> 'st \<times> bool \<times> error option"

definition iter_proc ::
  "InstanceCache \<Rightarrow> 'st ServiceIterProc \<Rightarrow> string \<Rightarrow> ptr
     \<Rightarrow> heap \<times> 'st \<times> bool \<times> error option \<Rightarrow> (heap \<times> 'st \<times> bool \<times> error option) \<times> bool" where
  "iter_proc inst iterProc k svc a =
     (case a of (h, st, _, _) \<Rightarrow>
        (let h1 = fillServicePorts inst h svc;
             (st1, cont, err) = iterProc st k (h1 svc)
         in if err \<noteq> None then ((h1, st1, cont, err), False)
            else ((h1, st1, cont, err), cont)))"

definition IteratorServices ::
  "InstanceCache \<Rightarrow> heap \<Rightarrow> serviceCache \<Rightarrow> 'st ServiceIterProc \<Rightarrow> 'st
     \<Rightarrow> heap \<times> 'st \<times> error option" where
  "IteratorServices inst h sc iterProc st =
     (case Range (iter_proc inst iterProc) (ids sc) (h, st, False, None) of
        (h', st', _, err) \<Rightarrow> (h', st', err))"

definition GetNamespaceCntInfo :: "serviceCache \<Rightarrow> string \<Rightarrow> NamespaceServiceCount" where
  "GetNamespaceCntInfo sc namespace =
     (case Load (namespaceServiceCnt sc) namespace of
        None \<Rightarrow> \<lparr>ServiceCount = 0,
                 InstanceCnt = Some \<lparr>HealthyInstanceCount = 0, TotalInstanceCount = 0\<rparr>\<rparr>
      | Some val \<Rightarrow> val)"

definition GetServicesCount :: "serviceCache \<Rightarrow> int" where
  "GetServicesCount sc = Range (\<lambda>key value count. (count + 1, True)) (ids sc) 0"

definition ListServices ::
  "serviceCache \<Rightarrow> string \<Rightarrow> (string \<times> string list) list \<times> ptr list" where
  "ListServices sc ns = bucketListServices (serviceList sc) ns"

definition genCl5Name :: "string \<Rightarrow> string" where
  "genCl5Name name = ''cl5.'' @ name"

definition GetServiceByCl5Name :: "serviceCache \<Rightarrow> string \<Rightarrow> ptr option" where
  "GetServiceByCl5Name sc cl5Name = Load (cl5Names sc) (genCl5Name cl5Name)"

subsection \<open>The merge engine\<close>

definition removeServices :: "heap \<Rightarrow> serviceCache \<Rightarrow> ptr \<Rightarrow> serviceCache" where
  "removeServices h sc service =
     (let s = h service;
          sc1 = sc\<lparr>ids := Delete (ID s) (ids sc),
                   serviceList := removeService h service (serviceList sc),
                   aliasBucket := cleanServiceAlias h service (aliasBucket sc),
                   pendingServices := Delete (ID s) (pendingServices sc)\<rparr>;
          sc2 = (case Load (names sc1) (Namespace s) of
                   Some spaces \<Rightarrow> sc1\<lparr>names := Store (Namespace s) (Delete (Name s) spaces) (names sc1)\<rparr>
                 | None \<Rightarrow> sc1)
      in case Load (cl5Sid2Name sc2) (Name s) of
           Some cl5Name \<Rightarrow> sc2\<lparr>cl5Sid2Name := Delete (Name s) (cl5Sid2Name sc2),
                                cl5Names := Delete cl5Name (cl5Names sc2)\<rparr>
         | None \<Rightarrow> sc2)"

definition updateCl5SidAndNames :: "heap \<Rightarrow> serviceCache \<Rightarrow> ptr \<Rightarrow> serviceCache" where
  "updateCl5SidAndNames h sc service =
     (let s = h service in
      case map_of (Meta s) ''internal-cl5-sid'' of
        None \<Rightarrow> sc
      | Some _ \<Rightarrow>
          (let sid = Name s in
           case map_of (Meta s) ''internal-cl5-name'' of
             None \<Rightarrow>
               (case Load (cl5Sid2Name sc) sid of
                  Some oldCl5Name \<Rightarrow> sc\<lparr>cl5Sid2Name := Delete sid (cl5Sid2Name sc),
                                         cl5Names := Delete oldCl5Name (cl5Names sc)\<rparr>
                | None \<Rightarrow> sc)
           | Some cl5NameMeta \<Rightarrow>
               (let cl5Name = genCl5Name cl5NameMeta
                in sc\<lparr>cl5Sid2Name := Store sid cl5Name (cl5Sid2Name sc),
                      cl5Names := Store cl5Name service (cl5Names sc)\<rparr>)))"

text \<open>
  The local variables of \<open>setServices\<close> that its loop carries along. \<open>progress\<close> only
  feeds the log and is left out.
\<close>

record setLocals =
  l_lastMtime :: int
  l_update :: int
  l_del :: int
  l_changeNs :: "string list"
  l_svcCount :: int
  l_aliases :: "ptr list"

text \<open>
  The body of the loop \<open>for _, service := range services\<close> for one entity, and the
  loop over the entities in the order the map is iterated.
\<close>

definition setServices_body ::
  "heap \<Rightarrow> ptr \<Rightarrow> serviceCache \<times> setLocals \<Rightarrow> serviceCache \<times> setLocals" where
  "setServices_body h service scL =
     (case scL of (sc, L) \<Rightarrow>
        (let s = h service;
             L1 = (if l_lastMtime L < ModifyTime s then L\<lparr>l_lastMtime := ModifyTime s\<rparr> else L);
             L2 = (if IsAlias s then L1\<lparr>l_aliases := l_aliases L1 @ [service]\<rparr> else L1);
             spaceName = Namespace s;
             L3 = L2\<lparr>l_changeNs := set_add spaceName (l_changeNs L2)\<rparr>
         in if \<not> Valid s then
              (let sc1 = removeServices h sc service;
                   sc2 = sc1\<lparr>revisionCh := revisionCh sc1 @ [(ID s, False)]\<rparr>
               in (sc2, L3\<lparr>l_del := l_del L3 + 1, l_svcCount := l_svcCount L3 - 1\<rparr>))
            else
              (let L4 = L3\<lparr>l_update := l_update L3 + 1\<rparr>;
                   exist = (Load (ids sc) (ID s) \<noteq> None);
                   L5 = (if \<not> exist then L4\<lparr>l_svcCount := l_svcCount L4 + 1\<rparr> else L4);
                   sc1 = sc\<lparr>ids := Store (ID s) service (ids sc),
                            serviceList := addService h service (serviceList sc),
                            revisionCh := revisionCh sc @ [(ID s, True)]\<rparr>;
                   sc2 = (case Load (names sc1) spaceName of
                            None \<Rightarrow> sc1\<lparr>names := Store spaceName NewSyncMap (names sc1)\<rparr>
                          | Some _ \<Rightarrow> sc1);
                   spaces = (case Load (names sc2) spaceName of
                               None \<Rightarrow> NewSyncMap | Some m \<Rightarrow> m);
                   sc3 = sc2\<lparr>names := Store spaceName (Store (Name s) service spaces)
                                          (names sc2)\<rparr>
               in (updateCl5SidAndNames h sc3 service, L5))))"

fun setServices_loop ::
  "heap \<Rightarrow> ptr list \<Rightarrow> serviceCache \<times> setLocals \<Rightarrow> serviceCache \<times> setLocals" where
  "setServices_loop h [] scL = scL"
| "setServices_loop h (service # rest) scL =
     setServices_loop h rest (setServices_body h service scL)"

definition notifyServiceCountReload :: "serviceCache \<Rightarrow> string list \<Rightarrow> serviceCache" where
  "notifyServiceCountReload sc svcIds =
     sc\<lparr>pendingServices := fold (\<lambda>k m. Store k () m) svcIds (pendingServices sc)\<rparr>"

text \<open>
  \<open>appendServiceCountChangeNamespace\<close>: the \<open>Range\<close> over the pending set collects the
  namespaces and the identifiers to delete, then the identifiers are deleted.
\<close>

definition appendServiceCountChangeNamespace ::
  "heap \<Rightarrow> serviceCache \<Rightarrow> string list \<Rightarrow> serviceCache \<times> string list" where
  "appendServiceCountChangeNamespace h sc changeNs =
     (let (changeNs', waitDel) =
            Range (\<lambda>svcId _ (cns, wd).
                     case Load (ids sc) svcId of
                       None \<Rightarrow> ((cns, wd), True)
                     | Some svc \<Rightarrow> ((set_add (Namespace (h svc)) cns, set_add svcId wd), True))
                  (pendingServices sc) (changeNs, [])
      in (sc\<lparr>pendingServices := fold (\<lambda>svcId m. Delete svcId m) waitDel (pendingServices sc)\<rparr>,
          changeNs'))"

fun postProcessServiceAlias :: "heap \<Rightarrow> serviceCache \<Rightarrow> ptr list \<Rightarrow> serviceCache" where
  "postProcessServiceAlias h sc [] = sc"
| "postProcessServiceAlias h sc (a # aliases) =
     (let aliasExist = (Load (ids sc) (ID (h a)) \<noteq> None)
      in case Load (ids sc) (Reference (h a)) of
           None \<Rightarrow> postProcessServiceAlias h sc aliases
         | Some aliasFor \<Rightarrow>
             if aliasExist
             then postProcessServiceAlias h
                    (sc\<lparr>aliasBucket := addServiceAlias h a aliasFor (aliasBucket sc)\<rparr>) aliases
             else postProcessServiceAlias h
                    (sc\<lparr>aliasBucket := delServiceAlias h a aliasFor (aliasBucket sc)\<rparr>) aliases)"

text \<open>
  The recount of one namespace: the counters are zeroed and every member of the name
  sub-index adds one service and its instance counts.
\<close>

definition recount :: "InstanceCache \<Rightarrow> heap \<Rightarrow> (string, ptr) SyncMap \<Rightarrow> NamespaceServiceCount" where
  "recount inst h spaces =
     Range (\<lambda>key svc count.
              (let insCnt = GetInstancesCountByServiceID inst (ID (h svc));
                   ic = (case InstanceCnt count of
                           None \<Rightarrow> \<lparr>HealthyInstanceCount = 0, TotalInstanceCount = 0\<rparr>
                         | Some c \<Rightarrow> c)
               in (\<lparr>ServiceCount = ServiceCount count + 1,
                    InstanceCnt = Some \<lparr>HealthyInstanceCount =
                                          HealthyInstanceCount ic + HealthyInstanceCount insCnt,
                                        TotalInstanceCount =
                                          TotalInstanceCount ic + TotalInstanceCount insCnt\<rparr>\<rparr>,
                   True)))
           spaces
           \<lparr>ServiceCount = 0,
            InstanceCnt = Some \<lparr>HealthyInstanceCount = 0, TotalInstanceCount = 0\<rparr>\<rparr>"

text \<open>The loop \<open>for namespace := range affect\<close> of \<open>postProcessUpdatedServices\<close>.\<close>

fun countNamespaces :: "InstanceCache \<Rightarrow> heap \<Rightarrow> serviceCache \<Rightarrow> string list \<Rightarrow> serviceCache" where
  "countNamespaces inst h sc [] = sc"
| "countNamespaces inst h sc (namespace # affect) =
     (case Load (names sc) namespace of
        None \<Rightarrow>
          countNamespaces inst h
            (sc\<lparr>namespaceServiceCnt := Delete namespace (namespaceServiceCnt sc)\<rparr>) affect
      | Some spaces \<Rightarrow>
          (let (count, cnt1) =
                 LoadOrStore namespace \<lparr>ServiceCount = 0, InstanceCnt = None\<rparr>
                   (namespaceServiceCnt sc)
           in countNamespaces inst h
                (sc\<lparr>namespaceServiceCnt := Store namespace (recount inst h spaces) cnt1\<rparr>)
                affect))"

definition postProcessUpdatedServices ::
  "InstanceCache \<Rightarrow> heap \<Rightarrow> serviceCache \<Rightarrow> string list \<Rightarrow> serviceCache" where
  "postProcessUpdatedServices inst h sc affect =
     (let (sc1, affect') = appendServiceCountChangeNamespace h sc affect
      in countNamespaces inst h sc1 affect')"

text \<open>
  \<open>setServices\<close>. The batch is the Go map from identifier to entity, as the list of its
  entries in the order of iteration; the loop reads the values only. The result is the
  new cache and the three values returned: the map of last-modified times (nil for an
  empty batch), the number of updates and the number of deletions.
\<close>

definition ServiceName :: string where
  "ServiceName = ''service''"

text \<open>The local variables as \<open>setServices\<close> declares them before its loop.\<close>

definition initLocals :: "serviceCache \<Rightarrow> setLocals" where
  "initLocals sc =
     \<lparr>l_lastMtime = LastMtime sc, l_update = 0, l_del = 0, l_changeNs = [],
      l_svcCount = serviceCount sc, l_aliases = []\<rparr>"

definition setServices ::
  "InstanceCache \<Rightarrow> heap \<Rightarrow> serviceCache \<Rightarrow> (string \<times> ptr) list
     \<Rightarrow> serviceCache \<times> (string \<times> int) list option \<times> int \<times> int" where
  "setServices inst h sc services =
     (if length services = 0 then (sc, None, 0, 0)
      else
        (let (sc1, L) = setServices_loop h (map snd services) (sc, initLocals sc);
             sc2 = (if serviceCount sc1 \<noteq> l_svcCount L
                    then sc1\<lparr>serviceCount := l_svcCount L\<rparr> else sc1);
             sc3 = postProcessServiceAlias h sc2 (l_aliases L);
             sc4 = postProcessUpdatedServices inst h sc3 (l_changeNs L);
             sc5 = sc4\<lparr>serviceList := reloadRevision h (serviceList sc4)\<rparr>
         in (sc5, Some [(ServiceName, l_lastMtime L)], l_update L, l_del L)))"

subsection \<open>Reference definitions in the words of the claims\<close>

text \<open>
  Calling the visitor on every entry of a list in order, never stopping, and recording
  its answers: the run that \<open>IteratorServices\<close> follows up to the entry where it stops.
\<close>

fun visit_all ::
  "InstanceCache \<Rightarrow> 'st ServiceIterProc \<Rightarrow> (string \<times> ptr) list \<Rightarrow> heap \<times> 'st
     \<Rightarrow> (heap \<times> 'st) \<times> (bool \<times> error option) list" where
  "visit_all inst f [] (h, st) = ((h, st), [])"
| "visit_all inst f ((k, p) # es) (h, st) =
     (let h1 = fillServicePorts inst h p;
          (st1, c, e) = f st k (h1 p);
          (r, as) = visit_all inst f es (h1, st1)
      in (r, (c, e) # as))"

text \<open>The identity fields of an entity: everything but the lazily derived port list.\<close>

definition same_identity :: "Service \<Rightarrow> Service \<Rightarrow> bool" where
  "same_identity a b =
     (ID a = ID b \<and> Name a = Name b \<and> Namespace a = Namespace b \<and>
      Reference a = Reference b \<and> Meta a = Meta b \<and> Valid a = Valid b \<and>
      ModifyTime a = ModifyTime b)"

text \<open>
  The rule of the alias post-pass for one deferred alias record, against the primary
  index \<open>idx\<close>: target absent, bucket untouched; target and alias present, link; target
  present and alias absent, unlink.
\<close>

definition alias_rule ::
  "heap \<Rightarrow> (string, ptr) SyncMap \<Rightarrow> ptr \<Rightarrow> serviceAliasBucket \<Rightarrow> serviceAliasBucket" where
  "alias_rule h idx a b =
     (case Load idx (Reference (h a)) of
        None \<Rightarrow> b
      | Some t \<Rightarrow> if Load idx (ID (h a)) \<noteq> None then addServiceAlias h a t b
                  else delServiceAlias h a t b)"

text \<open>
  The agreement of the primary index and the (namespace, name) index. \<open>lookup_name\<close>
  reads the name index the way \<open>GetServiceByName\<close> does, without its checks for empty
  arguments and without the enrichment. The two indices agree when every entry of the
  primary index is filed under the identifier of its object and the name index holds
  the same pointer under the object's namespace and name, and every entry of the name
  index is filed under the namespace and name of its object and the primary index holds
  the same pointer under the object's identifier.
\<close>

definition lookup_name :: "serviceCache \<Rightarrow> string \<Rightarrow> string \<Rightarrow> ptr option" where
  "lookup_name sc ns n =
     (case Load (names sc) ns of None \<Rightarrow> None | Some spaces \<Rightarrow> Load spaces n)"

definition indices_agree :: "heap \<Rightarrow> serviceCache \<Rightarrow> bool" where
  "indices_agree h sc =
     (list_all (\<lambda>(i, _). case Load (ids sc) i of
                            None \<Rightarrow> True
                          | Some p \<Rightarrow> ID (h p) = i \<and>
                                      lookup_name sc (Namespace (h p)) (Name (h p)) = Some p)
        (ids sc) \<and>
      list_all (\<lambda>(ns, _). case Load (names sc) ns of
                             None \<Rightarrow> True
                           | Some spaces \<Rightarrow>
                               list_all (\<lambda>(n, _). case Load spaces n of
                                                     None \<Rightarrow> True
                                                   | Some p \<Rightarrow>
                                                       Namespace (h p) = ns \<and> Name (h p) = n \<and>
                                                       Load (ids sc) (ID (h p)) = Some p)
                                 spaces)
        (names sc))"

text \<open>
  Two entities are key-consistent when they have the same identifier exactly when they
  have the same namespace and name. An entity is consistent with the cache when the
  object the primary index holds under its identifier has its namespace and name, and
  the object the name index holds under its namespace and name has its identifier.
\<close>

definition key_consistent :: "Service \<Rightarrow> Service \<Rightarrow> bool" where
  "key_consistent a b = ((ID a = ID b) = (Namespace a = Namespace b \<and> Name a = Name b))"

definition consistent_with :: "heap \<Rightarrow> serviceCache \<Rightarrow> ptr \<Rightarrow> bool" where
  "consistent_with h sc p =
     ((case Load (ids sc) (ID (h p)) of
         None \<Rightarrow> True
       | Some q \<Rightarrow> Namespace (h q) = Namespace (h p) \<and> Name (h q) = Name (h p)) \<and>
      (case lookup_name sc (Namespace (h p)) (Name (h p)) of
         None \<Rightarrow> True
       | Some q \<Rightarrow> ID (h q) = ID (h p)))"

subsection \<open>Example data\<close>

definition ex_service :: "string \<Rightarrow> string \<Rightarrow> string \<Rightarrow> string \<Rightarrow> bool \<Rightarrow> Service" where
  "ex_service i ns n r v =
     \<lparr>ID = i, Name = n, Namespace = ns, Reference = r, Meta = [], Valid = v,
      ModifyTime = 0, Ports = [], ServicePorts = []\<rparr>"

text \<open>
  Objects 1 and 2 are two live services of namespace \<open>default\<close>, 3 is a live alias of
  service 1, 4 is the soft-delete record of service 1, 5 the soft-delete record of the
  alias, 6 a live service of namespace \<open>test\<close> and 7 its soft-delete record; 8 is a live
  service with a new identifier and the name of service 1.
\<close>

definition ex_heap :: heap where
  "ex_heap p =
     (if p = 1 then ex_service ''id-a'' ''default'' ''a'' [] True
      else if p = 2 then ex_service ''id-b'' ''default'' ''b'' [] True
      else if p = 3 then ex_service ''id-c'' ''default'' ''c'' ''id-a'' True
      else if p = 4 then ex_service ''id-a'' ''default'' ''a'' [] False
      else if p = 5 then ex_service ''id-c'' ''default'' ''c'' ''id-a'' False
      else if p = 6 then ex_service ''id-d'' ''test'' ''d'' [] True
      else if p = 7 then ex_service ''id-d'' ''test'' ''d'' [] False
      else if p = 8 then ex_service ''id-e'' ''default'' ''a'' [] True
      else ex_service [] [] [] [] False)"

definition ex_inst :: InstanceCache where
  "ex_inst =
     \<lparr>GetServicePorts = (\<lambda>i. if i = ''id-a'' then [\<lparr>Port = 8080, Protocol = ''tcp''\<rparr>] else []),
      GetInstancesCountByServiceID =
        (\<lambda>i. if i = ''id-a'' then \<lparr>HealthyInstanceCount = 1, TotalInstanceCount = 2\<rparr>
              else \<lparr>HealthyInstanceCount = 0, TotalInstanceCount = 0\<rparr>)\<rparr>"

definition ex_cache :: serviceCache where
  "ex_cache = initialize newServiceCache None"

text \<open>A visitor that records the keys it sees and fails at the key \<open>id-b\<close>.\<close>

definition ex_visitor :: "string list ServiceIterProc" where
  "ex_visitor st k s = (st @ [k], True, if k = ''id-b'' then Some ''boom'' else None)"

text \<open>A visitor that records the keys it sees and stops, without error, at \<open>id-b\<close>.\<close>

definition ex_stopper :: "string list ServiceIterProc" where
  "ex_stopper st k s = (st @ [k], k \<noteq> ''id-b'', None)"

definition ex_ids :: "(string, ptr) SyncMap" where
  "ex_ids = [(''id-a'', 1), (''id-b'', 2), (''id-c'', 3)]"

text \<open>
  A cache that holds service 1 while the pending set holds its identifier and an
  unknown one.
\<close>

definition ex_pending :: serviceCache where
  "ex_pending =
     ex_cache\<lparr>ids := [(''id-a'', 1)], names := [(''default'', [(''a'', 1)])],
              pendingServices := [(''id-a'', ()), (''id-x'', ())]\<rparr>"

text \<open>A cache that holds services 1 and 2, with a running total of two.\<close>

definition ex_two :: serviceCache where
  "ex_two =
     ex_cache\<lparr>ids := [(''id-a'', 1), (''id-b'', 2)],
              names := [(''default'', [(''a'', 1), (''b'', 2)])],
              serviceCount := 2\<rparr>"

section \<open>Properties\<close>

lemmas syncmap_defs = NewSyncMap_def Load_def Store_def Delete_def LoadOrStore_def

subsection \<open>The cache-miss load\<close>

text \<open>
  C8: when \<open>GetOrLoadServiceByID\<close> is asked for an identifier that the primary index
  does not hold and the store answers with an error or with no entity, the cache and
  the objects are left as they were and the caller gets nil; the error of the store is
  in no result.
\<close>

theorem GetOrLoadServiceByID_failed_fetch:
  assumes "Load (ids sc) sid = None"
      and "storage sid = (svc, err)"
      and "err \<noteq> None \<or> svc = None"
  shows "GetOrLoadServiceByID storage inst h sc sid = (h, sc, None)"
  using assms by (auto simp: GetOrLoadServiceByID_def)

theorem GetOrLoadServiceByID_failed_fetch_witness:
  "GetOrLoadServiceByID (\<lambda>i. (Some 1, Some ''timeout'')) ex_inst ex_heap ex_cache ''id-a''
     = (ex_heap, ex_cache, None) \<and>
   GetOrLoadServiceByID (\<lambda>i. (None, None)) ex_inst ex_heap ex_cache ''id-a''
     = (ex_heap, ex_cache, None)"
  using GetOrLoadServiceByID_failed_fetch
          [of ex_cache "''id-a''" "\<lambda>i. (Some 1, Some ''timeout'')" "Some 1" "Some ''timeout''"
              ex_inst ex_heap]
        GetOrLoadServiceByID_failed_fetch
          [of ex_cache "''id-a''" "\<lambda>i. (None, None)" None None ex_inst ex_heap]
  by (simp add: ex_cache_def initialize_def newServiceCache_def syncmap_defs)

subsection \<open>Iteration\<close>

lemma fillServicePorts_identity:
  "same_identity (fillServicePorts inst h p q) (h q)"
  by (simp add: fillServicePorts_def same_identity_def Let_def)

lemma same_identity_trans:
  "same_identity a b \<Longrightarrow> same_identity b c \<Longrightarrow> same_identity a c"
  by (simp add: same_identity_def)

lemma iter_proc_step:
  "iter_proc inst f k p (h, st, c0, e0)
     = (case f st k (fillServicePorts inst h p p) of
          (st1, c, e) \<Rightarrow> ((fillServicePorts inst h p, st1, c, e), (e = None \<and> c)))"
  by (auto simp: iter_proc_def Let_def split: prod.splits)

lemma Range_iter_identity:
  "same_identity (fst (Range (iter_proc inst f) es (h, st, c, e)) q) (h q)"
proof (induction es arbitrary: h st c e)
  case Nil
  show ?case by (simp add: same_identity_def)
next
  case (Cons x es)
  obtain k p where x: "x = (k, p)" by (cases x)
  obtain st1 c1 e1 where f: "f st k (fillServicePorts inst h p p) = (st1, c1, e1)"
    by (cases "f st k (fillServicePorts inst h p p)")
  show ?case
  proof (cases "e1 = None \<and> c1")
    case True
    have "same_identity
            (fst (Range (iter_proc inst f) es (fillServicePorts inst h p, st1, c1, e1)) q)
            (fillServicePorts inst h p q)"
      by (rule Cons.IH)
    then have "same_identity
            (fst (Range (iter_proc inst f) es (fillServicePorts inst h p, st1, c1, e1)) q)
            (h q)"
      using fillServicePorts_identity same_identity_trans by blast
    then show ?thesis using True x f by (simp add: iter_proc_step)
  next
    case False
    then show ?thesis using x f fillServicePorts_identity[of inst h p q]
      by (auto simp add: iter_proc_step)
  qed
qed

lemma Range_iter_prefix:
  "visit_all inst f pre (h, st) = ((h1, st1), answers) \<Longrightarrow>
   list_all (\<lambda>a. a = (True, None)) answers \<Longrightarrow>
   \<exists>c1. Range (iter_proc inst f) (pre @ rest) (h, st, c0, None)
        = Range (iter_proc inst f) rest (h1, st1, c1, None)"
proof (induction pre arbitrary: h st c0 answers)
  case Nil
  then show ?case by auto
next
  case (Cons x pre)
  obtain k p where x: "x = (k, p)" by (cases x)
  obtain st' c e where f: "f st k (fillServicePorts inst h p p) = (st', c, e)"
    by (cases "f st k (fillServicePorts inst h p p)")
  obtain r as where v: "visit_all inst f pre (fillServicePorts inst h p, st') = (r, as)"
    by (cases "visit_all inst f pre (fillServicePorts inst h p, st')")
  from Cons.prems x f v have r: "r = (h1, st1)" and a: "answers = (c, e) # as"
    by (auto simp: Let_def)
  with Cons.prems(2) have ce: "c = True" "e = None"
    and as: "list_all (\<lambda>a. a = (True, None)) as"
    by auto
  from Cons.IH[OF v[unfolded r] as, of True]
  obtain c1 where
    "Range (iter_proc inst f) (pre @ rest) (fillServicePorts inst h p, st', True, None)
        = Range (iter_proc inst f) rest (h1, st1, c1, None)" by blast
  then show ?case using x ce by (auto simp: iter_proc_step f)
qed

text \<open>
  C9: let the visitor have answered "continue, no error" on the entries \<open>pre\<close> that
  precede the entry \<open>(k, p)\<close> of the primary index, leaving its own state \<open>st1\<close>. If it
  answers with an error at \<open>(k, p)\<close>, \<open>IteratorServices\<close> returns that error and the
  visitor's state right after that call: no later entry was visited. If it answers
  "stop" without error, nil is returned, again with the state right after that call. The
  iteration yields no new cache, and every object keeps its identity fields: only the
  lazily derived port list of a visited object is written.
\<close>

theorem IteratorServices_visitor:
  assumes "ids sc = pre @ (k, p) # post"
      and "visit_all inst f pre (h, st) = ((h1, st1), answers)"
      and "list_all (\<lambda>a. a = (True, None)) answers"
      and "f st1 k (fillServicePorts inst h1 p p) = (st2, c, e)"
  shows "(e \<noteq> None \<longrightarrow>
            IteratorServices inst h sc f st = (fillServicePorts inst h1 p, st2, e)) \<and>
         (e = None \<and> \<not> c \<longrightarrow>
            IteratorServices inst h sc f st = (fillServicePorts inst h1 p, st2, None)) \<and>
         (\<forall>q. same_identity (fst (IteratorServices inst h sc f st) q) (h q))"
proof -
  from Range_iter_prefix[OF assms(2,3), of "(k, p) # post" False]
  obtain c1 where "Range (iter_proc inst f) (ids sc) (h, st, False, None)
        = Range (iter_proc inst f) ((k, p) # post) (h1, st1, c1, None)"
    using assms(1) by auto
  then have "(e \<noteq> None \<longrightarrow>
            IteratorServices inst h sc f st = (fillServicePorts inst h1 p, st2, e)) \<and>
         (e = None \<and> \<not> c \<longrightarrow>
            IteratorServices inst h sc f st = (fillServicePorts inst h1 p, st2, None))"
    by (auto simp: IteratorServices_def iter_proc_step assms(4))
  moreover have "\<forall>q. same_identity (fst (IteratorServices inst h sc f st) q) (h q)"
    using Range_iter_identity[of inst f "ids sc" h st False None]
    by (auto simp: IteratorServices_def split: prod.splits)
  ultimately show ?thesis by blast
qed

theorem IteratorServices_visitor_witness:
  "snd (IteratorServices ex_inst ex_heap (ex_cache\<lparr>ids := ex_ids\<rparr>) ex_visitor [])
     = ([''id-a'', ''id-b''], Some ''boom'') \<and>
   snd (IteratorServices ex_inst ex_heap (ex_cache\<lparr>ids := ex_ids\<rparr>) ex_stopper [])
     = ([''id-a'', ''id-b''], None) \<and>
   ID (fst (IteratorServices ex_inst ex_heap (ex_cache\<lparr>ids := ex_ids\<rparr>) ex_visitor []) 1)
     = ''id-a''"
proof -
  let ?sc = "ex_cache\<lparr>ids := ex_ids\<rparr>"
  let ?h1 = "fillServicePorts ex_inst ex_heap 1"
  have i: "ids ?sc = [(''id-a'', 1)] @ (''id-b'', 2) # [(''id-c'', 3)]"
    by (simp add: ex_ids_def)
  have v1: "visit_all ex_inst ex_visitor [(''id-a'', 1)] (ex_heap, [])
              = ((?h1, [''id-a'']), [(True, None)])"
    by (simp add: ex_visitor_def Let_def)
  have v2: "visit_all ex_inst ex_stopper [(''id-a'', 1)] (ex_heap, [])
              = ((?h1, [''id-a'']), [(True, None)])"
    by (simp add: ex_stopper_def Let_def)
  have a: "list_all (\<lambda>a. a = (True, None)) [(True, None :: error option)]"
    by simp
  have f1: "ex_visitor [''id-a''] ''id-b'' (fillServicePorts ex_inst ?h1 2 2)
              = ([''id-a'', ''id-b''], True, Some ''boom'')"
    by (simp add: ex_visitor_def)
  have f2: "ex_stopper [''id-a''] ''id-b'' (fillServicePorts ex_inst ?h1 2 2)
              = ([''id-a'', ''id-b''], False, None)"
    by (simp add: ex_stopper_def)
  note t1 = IteratorServices_visitor [OF i v1 a f1]
  note t2 = IteratorServices_visitor [OF i v2 a f2]
  from t1 have r1: "snd (IteratorServices ex_inst ex_heap ?sc ex_visitor [])
     = ([''id-a'', ''id-b''], Some ''boom'')" by simp
  from t2 have r2: "snd (IteratorServices ex_inst ex_heap ?sc ex_stopper [])
     = ([''id-a'', ''id-b''], None)" by simp
  from t1 have
    "same_identity (fst (IteratorServices ex_inst ex_heap ?sc ex_visitor []) 1) (ex_heap 1)"
    by blast
  then have r3: "ID (fst (IteratorServices ex_inst ex_heap ?sc ex_visitor []) 1) = ''id-a''"
    by (simp add: same_identity_def ex_heap_def ex_service_def)
  from r1 r2 r3 show ?thesis by blast
qed

subsection \<open>The concurrent map\<close>

lemma Load_Store: "Load (Store k v m) k' = (if k' = k then Some v else Load m k')"
  by (simp add: Load_def Store_def update_conv')

lemma Load_Delete: "Load (Delete k m) k' = (if k' = k then None else Load m k')"
  by (simp add: Load_def Delete_def delete_conv')

subsection \<open>The cache-miss load, when the store answers\<close>

text \<open>
  C10: when \<open>GetOrLoadServiceByID\<close> is asked for a non-empty identifier that the primary
  index does not hold and the store answers with an entity and no error, the only
  field of the cache that changes is the primary index, which gets the entity under the
  entity's identifier. The name index, the legacy indices, the listing bucket, the
  namespace aggregates and the running total stay as they were. Right afterwards
  \<open>GetServiceByID\<close> finds the entity, while \<open>GetServiceByName\<close>, \<open>ListServices\<close> and
  \<open>GetNamespaceCntInfo\<close> answer as before the load.
\<close>

theorem GetOrLoadServiceByID_loaded:
  assumes "sid \<noteq> ''''"
      and "Load (ids sc) sid = None"
      and "storage sid = (Some p, None)"
  shows "(let r = GetOrLoadServiceByID storage inst h sc sid;
              h' = fst r; sc' = fst (snd r)
          in sc' = sc\<lparr>ids := Store (ID (h p)) p (ids sc)\<rparr> \<and>
             names sc' = names sc \<and> cl5Sid2Name sc' = cl5Sid2Name sc \<and>
             cl5Names sc' = cl5Names sc \<and> serviceList sc' = serviceList sc \<and>
             namespaceServiceCnt sc' = namespaceServiceCnt sc \<and>
             serviceCount sc' = serviceCount sc \<and>
             snd (snd r) = (if ID (h p) = sid then Some p else None) \<and>
             (ID (h p) \<noteq> '''' \<longrightarrow> snd (GetServiceByID inst h' sc' (ID (h p))) = Some p) \<and>
             (\<forall>n ns. snd (GetServiceByName inst h' sc' n ns)
                       = snd (GetServiceByName inst h sc n ns)) \<and>
             (\<forall>ns. ListServices sc' ns = ListServices sc ns) \<and>
             (\<forall>ns. GetNamespaceCntInfo sc' ns = GetNamespaceCntInfo sc ns))"
proof -
  let ?sc' = "sc\<lparr>ids := Store (ID (h p)) p (ids sc)\<rparr>"
  have r: "GetOrLoadServiceByID storage inst h sc sid =
          (if ID (h p) = sid then (fillServicePorts inst h p, ?sc', Some p)
           else (h, ?sc', None))"
    using assms by (auto simp: GetOrLoadServiceByID_def Load_Store)
  have byname: "\<And>h' n ns. snd (GetServiceByName inst h' ?sc' n ns)
                            = snd (GetServiceByName inst h sc n ns)"
    by (simp add: GetServiceByName_def split: option.splits)
  have byid: "\<And>h'. ID (h p) \<noteq> '''' \<Longrightarrow>
                   snd (GetServiceByID inst h' ?sc' (ID (h p))) = Some p"
    by (simp add: GetServiceByID_def Load_Store)
  show ?thesis
  proof (cases "ID (h p) = sid")
    case True
    then have r': "GetOrLoadServiceByID storage inst h sc sid
                     = (fillServicePorts inst h p, ?sc', Some p)"
      using r by simp
    show ?thesis
      unfolding Let_def r'
      using byname[of "fillServicePorts inst h p"] byid[of "fillServicePorts inst h p"] True
      by (simp add: ListServices_def GetNamespaceCntInfo_def del: Service.simps)
  next
    case False
    then have r': "GetOrLoadServiceByID storage inst h sc sid = (h, ?sc', None)"
      using r by simp
    show ?thesis
      unfolding Let_def r'
      using byname[of h] byid[of h] False
      by (simp add: ListServices_def GetNamespaceCntInfo_def)
  qed
qed

theorem GetOrLoadServiceByID_loaded_witness:
  "fst (snd (GetOrLoadServiceByID (\<lambda>i. (Some 1, None)) ex_inst ex_heap ex_cache ''id-a''))
     = ex_cache\<lparr>ids := [(''id-a'', 1)]\<rparr> \<and>
   snd (snd (GetOrLoadServiceByID (\<lambda>i. (Some 1, None)) ex_inst ex_heap ex_cache ''id-a''))
     = Some 1 \<and>
   snd (GetServiceByID ex_inst
          (fst (GetOrLoadServiceByID (\<lambda>i. (Some 1, None)) ex_inst ex_heap ex_cache ''id-a''))
          (fst (snd (GetOrLoadServiceByID (\<lambda>i. (Some 1, None)) ex_inst ex_heap ex_cache
                       ''id-a'')))
          ''id-a'') = Some 1 \<and>
   snd (GetServiceByName ex_inst
          (fst (GetOrLoadServiceByID (\<lambda>i. (Some 1, None)) ex_inst ex_heap ex_cache ''id-a''))
          (fst (snd (GetOrLoadServiceByID (\<lambda>i. (Some 1, None)) ex_inst ex_heap ex_cache
                       ''id-a'')))
          ''a'' ''default'') = None \<and>
   ListServices
     (fst (snd (GetOrLoadServiceByID (\<lambda>i. (Some 1, None)) ex_inst ex_heap ex_cache ''id-a'')))
     ''default'' = ([], []) \<and>
   serviceCount
     (fst (snd (GetOrLoadServiceByID (\<lambda>i. (Some 1, None)) ex_inst ex_heap ex_cache ''id-a'')))
     = 0"
proof -
  have a: "''id-a'' \<noteq> ''''" by simp
  have b: "Load (ids ex_cache) ''id-a'' = None"
    by (simp add: ex_cache_def initialize_def newServiceCache_def syncmap_defs)
  have c: "(\<lambda>i::string. (Some (1::nat), None :: error option)) ''id-a'' = (Some 1, None)"
    by simp
  have i: "ID (ex_heap 1) = ''id-a''" by (simp add: ex_heap_def ex_service_def)
  have e: "ids ex_cache = []" "names ex_cache = []" "serviceCount ex_cache = 0"
     "serviceList ex_cache = newServiceNamespaceBucket"
    by (simp_all add: ex_cache_def initialize_def newServiceCache_def syncmap_defs)
  let ?r = "GetOrLoadServiceByID (\<lambda>i. (Some 1, None)) ex_inst ex_heap ex_cache ''id-a''"
  note t = GetOrLoadServiceByID_loaded
             [where storage = "\<lambda>i. (Some 1, None)" and p = 1 and h = ex_heap
                and inst = ex_inst, OF a b c, unfolded Let_def i]
  from t have t1: "fst (snd ?r) = ex_cache\<lparr>ids := Store ''id-a'' 1 (ids ex_cache)\<rparr>"
    by blast
  from t have t2: "snd (snd ?r) = (if ''id-a'' = ''id-a'' then Some 1 else None)"
    by blast
  from t have t3: "''id-a'' \<noteq> [] \<longrightarrow>
                     snd (GetServiceByID ex_inst (fst ?r) (fst (snd ?r)) ''id-a'') = Some 1"
    by blast
  from t have t4: "snd (GetServiceByName ex_inst (fst ?r) (fst (snd ?r)) ''a'' ''default'')
                     = snd (GetServiceByName ex_inst ex_heap ex_cache ''a'' ''default'')"
    by blast
  from t have t5: "ListServices (fst (snd ?r)) ''default'' = ListServices ex_cache ''default''"
    by blast
  from t have t6: "serviceCount (fst (snd ?r)) = serviceCount ex_cache"
    by blast
  have r1: "fst (snd ?r) = ex_cache\<lparr>ids := [(''id-a'', 1)]\<rparr>"
    using t1 by (simp add: e syncmap_defs)
  have r2: "snd (snd ?r) = Some 1" using t2 by simp
  have r3: "snd (GetServiceByID ex_inst (fst ?r) (fst (snd ?r)) ''id-a'') = Some 1"
    using t3 by simp
  have r4: "snd (GetServiceByName ex_inst (fst ?r) (fst (snd ?r)) ''a'' ''default'') = None"
    unfolding t4 by (simp add: GetServiceByName_def e syncmap_defs)
  have r5: "ListServices (fst (snd ?r)) ''default'' = ([], [])"
    unfolding t5
    by (simp add: ListServices_def bucketListServices_def e newServiceNamespaceBucket_def)
  have r6: "serviceCount (fst (snd ?r)) = 0"
    unfolding t6 by (simp add: e)
  from r1 r2 r3 r4 r5 r6 show ?thesis by blast
qed

subsection \<open>What one pass of the merge loop does to each part of the state\<close>

lemma removeServices_ids: "ids (removeServices h sc p) = Delete (ID (h p)) (ids sc)"
  by (simp add: removeServices_def Let_def split: option.splits)

lemma removeServices_names:
  "names (removeServices h sc p) =
     (case Load (names sc) (Namespace (h p)) of
        Some spaces \<Rightarrow> Store (Namespace (h p)) (Delete (Name (h p)) spaces) (names sc)
      | None \<Rightarrow> names sc)"
  by (simp add: removeServices_def Let_def split: option.splits)

lemma removeServices_frame:
  "namespaceServiceCnt (removeServices h sc p) = namespaceServiceCnt sc \<and>
   serviceCount (removeServices h sc p) = serviceCount sc \<and>
   lastMtime (removeServices h sc p) = lastMtime sc \<and>
   revisionCh (removeServices h sc p) = revisionCh sc \<and>
   pendingServices (removeServices h sc p) = Delete (ID (h p)) (pendingServices sc) \<and>
   aliasBucket (removeServices h sc p) = cleanServiceAlias h p (aliasBucket sc)"
  by (simp add: removeServices_def Let_def split: option.splits)

lemma updateCl5SidAndNames_frame:
  "ids (updateCl5SidAndNames h sc p) = ids sc \<and>
   names (updateCl5SidAndNames h sc p) = names sc \<and>
   namespaceServiceCnt (updateCl5SidAndNames h sc p) = namespaceServiceCnt sc \<and>
   serviceCount (updateCl5SidAndNames h sc p) = serviceCount sc \<and>
   lastMtime (updateCl5SidAndNames h sc p) = lastMtime sc \<and>
   revisionCh (updateCl5SidAndNames h sc p) = revisionCh sc \<and>
   pendingServices (updateCl5SidAndNames h sc p) = pendingServices sc \<and>
   aliasBucket (updateCl5SidAndNames h sc p) = aliasBucket sc \<and>
   serviceList (updateCl5SidAndNames h sc p) = serviceList sc"
  by (simp add: updateCl5SidAndNames_def Let_def split: option.splits)

lemma body_ids:
  "ids (fst (setServices_body h p (sc, L))) =
     (if Valid (h p) then Store (ID (h p)) p (ids sc) else Delete (ID (h p)) (ids sc))"
  by (simp add: setServices_body_def Let_def removeServices_ids updateCl5SidAndNames_frame
        split: option.splits)

lemma Store_Store: "Store k v (Store k u m) = Store k v m"
  unfolding Store_def by (induction m) auto

lemma body_names:
  "names (fst (setServices_body h p (sc, L))) =
     (if Valid (h p)
      then Store (Namespace (h p))
             (Store (Name (h p)) p
                (case Load (names sc) (Namespace (h p)) of None \<Rightarrow> [] | Some m \<Rightarrow> m))
             (names sc)
      else (case Load (names sc) (Namespace (h p)) of
              Some spaces \<Rightarrow> Store (Namespace (h p)) (Delete (Name (h p)) spaces) (names sc)
            | None \<Rightarrow> names sc))"
  by (simp add: setServices_body_def Let_def removeServices_names updateCl5SidAndNames_frame
        Load_Store Store_Store NewSyncMap_def split: option.splits)

lemma body_serviceCount:
  "serviceCount (fst (setServices_body h p (sc, L))) = serviceCount sc"
  by (simp add: setServices_body_def Let_def removeServices_frame updateCl5SidAndNames_frame
        split: option.splits)

lemma body_aliases:
  "l_aliases (snd (setServices_body h p (sc, L))) =
     l_aliases L @ (if IsAlias (h p) then [p] else [])"
  by (simp add: setServices_body_def Let_def)

lemma body_changeNs:
  "l_changeNs (snd (setServices_body h p (sc, L))) = set_add (Namespace (h p)) (l_changeNs L)"
  by (simp add: setServices_body_def Let_def)

lemma body_svcCount:
  "l_svcCount (snd (setServices_body h p (sc, L))) =
     l_svcCount L + (if \<not> Valid (h p) then - 1
                     else if Load (ids sc) (ID (h p)) = None then 1 else 0)"
  by (simp add: setServices_body_def Let_def)

lemma loop_aliases:
  "l_aliases (snd (setServices_loop h ps (sc, L))) =
     l_aliases L @ filter (\<lambda>p. IsAlias (h p)) ps"
proof (induction ps arbitrary: sc L)
  case Nil
  show ?case by simp
next
  case (Cons p ps)
  obtain sc' L' where b: "setServices_body h p (sc, L) = (sc', L')"
    by (cases "setServices_body h p (sc, L)")
  have "l_aliases L' = l_aliases L @ (if IsAlias (h p) then [p] else [])"
    using body_aliases[of h p sc L] b by simp
  then show ?case using Cons.IH[of sc' L'] b by simp
qed

lemma set_set_add: "set (set_add x xs) = insert x (set xs)"
  by (auto simp: set_add_def)

lemma loop_changeNs:
  "set (l_changeNs (snd (setServices_loop h ps (sc, L)))) =
     set (l_changeNs L) \<union> (\<lambda>p. Namespace (h p)) ` set ps"
proof (induction ps arbitrary: sc L)
  case Nil
  show ?case by simp
next
  case (Cons p ps)
  obtain sc' L' where b: "setServices_body h p (sc, L) = (sc', L')"
    by (cases "setServices_body h p (sc, L)")
  have "set (l_changeNs L') = insert (Namespace (h p)) (set (l_changeNs L))"
    using body_changeNs[of h p sc L] b by (simp add: set_set_add)
  then show ?case using Cons.IH[of sc' L'] b by auto
qed

lemma loop_serviceCount:
  "serviceCount (fst (setServices_loop h ps (sc, L))) = serviceCount sc"
proof (induction ps arbitrary: sc L)
  case Nil
  show ?case by simp
next
  case (Cons p ps)
  obtain sc' L' where b: "setServices_body h p (sc, L) = (sc', L')"
    by (cases "setServices_body h p (sc, L)")
  have "serviceCount sc' = serviceCount sc"
    using body_serviceCount[of h p sc L] b by simp
  then show ?case using Cons.IH[of sc' L'] b by simp
qed

subsection \<open>The post-passes\<close>

lemma postProcessServiceAlias_fold:
  "postProcessServiceAlias h sc aliases =
     sc\<lparr>aliasBucket := fold (alias_rule h (ids sc)) aliases (aliasBucket sc)\<rparr>"
proof (induction aliases arbitrary: sc)
  case Nil
  show ?case by simp
next
  case (Cons a aliases)
  show ?case
    by (simp add: Cons.IH alias_rule_def Let_def split: option.splits)
qed

lemma countNamespaces_frame:
  "countNamespaces inst h sc nss =
     sc\<lparr>namespaceServiceCnt := namespaceServiceCnt (countNamespaces inst h sc nss)\<rparr>"
proof (induction nss arbitrary: sc)
  case Nil
  show ?case by simp
next
  case (Cons n nss)
  show ?case
  proof (cases "Load (names sc) n")
    case None
    let ?sc1 = "sc\<lparr>namespaceServiceCnt := Delete n (namespaceServiceCnt sc)\<rparr>"
    have "countNamespaces inst h ?sc1 nss =
            ?sc1\<lparr>namespaceServiceCnt := namespaceServiceCnt (countNamespaces inst h ?sc1 nss)\<rparr>"
      by (rule Cons.IH)
    then show ?thesis using None by simp
  next
    case (Some spaces)
    let ?sc1 = "sc\<lparr>namespaceServiceCnt := Store n (recount inst h spaces)
                   (snd (LoadOrStore n \<lparr>ServiceCount = 0, InstanceCnt = None\<rparr>
                          (namespaceServiceCnt sc)))\<rparr>"
    have "countNamespaces inst h ?sc1 nss =
            ?sc1\<lparr>namespaceServiceCnt := namespaceServiceCnt (countNamespaces inst h ?sc1 nss)\<rparr>"
      by (rule Cons.IH)
    then show ?thesis using Some by (simp add: split_beta)
  qed
qed

lemma countNamespaces_Load:
  "Load (namespaceServiceCnt (countNamespaces inst h sc nss)) ns =
     (if ns \<in> set nss then map_option (recount inst h) (Load (names sc) ns)
      else Load (namespaceServiceCnt sc) ns)"
proof (induction nss arbitrary: sc)
  case Nil
  show ?case by simp
next
  case (Cons n nss)
  show ?case
  proof (cases "Load (names sc) n")
    case None
    let ?sc1 = "sc\<lparr>namespaceServiceCnt := Delete n (namespaceServiceCnt sc)\<rparr>"
    show ?thesis using None Cons.IH[of ?sc1] by (auto simp: Load_Delete)
  next
    case (Some spaces)
    let ?sc1 = "sc\<lparr>namespaceServiceCnt := Store n (recount inst h spaces)
                   (snd (LoadOrStore n \<lparr>ServiceCount = 0, InstanceCnt = None\<rparr>
                          (namespaceServiceCnt sc)))\<rparr>"
    have l: "\<And>k. k \<noteq> n \<Longrightarrow>
               Load (snd (LoadOrStore n \<lparr>ServiceCount = 0, InstanceCnt = None\<rparr>
                            (namespaceServiceCnt sc))) k = Load (namespaceServiceCnt sc) k"
      by (simp add: LoadOrStore_def Load_Store split: option.splits)
    show ?thesis using Some Cons.IH[of ?sc1] l by (auto simp: Load_Store split_beta)
  qed
qed

lemma setServices_nonempty:
  assumes "services \<noteq> []"
  shows "fst (setServices inst h sc services) =
           (let scL = setServices_loop h (map snd services) (sc, initLocals sc);
                sc2 = (fst scL)\<lparr>serviceCount := l_svcCount (snd scL)\<rparr>;
                sc3 = postProcessServiceAlias h sc2 (l_aliases (snd scL));
                sc4 = postProcessUpdatedServices inst h sc3 (l_changeNs (snd scL))
            in sc4\<lparr>serviceList := reloadRevision h (serviceList sc4)\<rparr>)"
proof -
  obtain sc1 L where l: "setServices_loop h (map snd services) (sc, initLocals sc) = (sc1, L)"
    by (cases "setServices_loop h (map snd services) (sc, initLocals sc)")
  show ?thesis
  proof (cases "serviceCount sc1 = l_svcCount L")
    case True
    then have e: "sc1\<lparr>serviceCount := l_svcCount L\<rparr> = sc1" by auto
    show ?thesis
      using assms True
      apply (simp add: setServices_def Let_def l)
      apply (simp only: e)
      done
  next
    case False
    then show ?thesis
      using assms by (simp add: setServices_def Let_def l)
  qed
qed

lemma fold_Delete:
  "fold (\<lambda>k m. Delete k m) ks m = filter (\<lambda>(k, _). k \<notin> set ks) m"
proof (induction ks arbitrary: m)
  case Nil
  show ?case by simp
next
  case (Cons k ks)
  have "Delete k m = filter (\<lambda>(k', _). k' \<noteq> k) m"
    by (auto simp: Delete_def AList.delete_eq intro: filter_cong)
  then show ?case
    by (auto simp: Cons.IH intro: filter_cong)
qed

lemma drain_Range:
  "Range (\<lambda>svcId _ (cns, wd).
            case Load idx svcId of
              None \<Rightarrow> ((cns, wd), True)
            | Some svc \<Rightarrow> ((set_add (Namespace (h svc)) cns, set_add svcId wd), True))
         pend (cns0, wd0) = (cns', wd') \<Longrightarrow>
   set cns' = set cns0 \<union> {Namespace (h p) |k p. k \<in> fst ` set pend \<and> Load idx k = Some p} \<and>
   set wd' = set wd0 \<union> {k \<in> fst ` set pend. Load idx k \<noteq> None}"
proof (induction pend arbitrary: cns0 wd0)
  case Nil
  then show ?case by simp
next
  case (Cons x pend)
  obtain k u where x: "x = (k, u)" by (cases x)
  show ?case
  proof (cases "Load idx k")
    case None
    with Cons.prems x have "Range (\<lambda>svcId _ (cns, wd).
            case Load idx svcId of
              None \<Rightarrow> ((cns, wd), True)
            | Some svc \<Rightarrow> ((set_add (Namespace (h svc)) cns, set_add svcId wd), True))
         pend (cns0, wd0) = (cns', wd')" by simp
    from Cons.IH[OF this] show ?thesis using None x by auto
  next
    case (Some p)
    with Cons.prems x have "Range (\<lambda>svcId _ (cns, wd).
            case Load idx svcId of
              None \<Rightarrow> ((cns, wd), True)
            | Some svc \<Rightarrow> ((set_add (Namespace (h svc)) cns, set_add svcId wd), True))
         pend (set_add (Namespace (h p)) cns0, set_add k wd0) = (cns', wd')" by simp
    from Cons.IH[OF this] show ?thesis using Some x by (auto simp: set_set_add)
  qed
qed

lemma append_drain:
  "appendServiceCountChangeNamespace h sc changeNs = (sc', changeNs') \<Longrightarrow>
   sc' = sc\<lparr>pendingServices :=
             filter (\<lambda>(k, _). Load (ids sc) k = None) (pendingServices sc)\<rparr> \<and>
   set changeNs' = set changeNs \<union>
     {Namespace (h p) |k p. k \<in> fst ` set (pendingServices sc) \<and> Load (ids sc) k = Some p}"
proof -
  assume a: "appendServiceCountChangeNamespace h sc changeNs = (sc', changeNs')"
  obtain cns wd where r: "Range (\<lambda>svcId _ (cns, wd).
            case Load (ids sc) svcId of
              None \<Rightarrow> ((cns, wd), True)
            | Some svc \<Rightarrow> ((set_add (Namespace (h svc)) cns, set_add svcId wd), True))
         (pendingServices sc) (changeNs, []) = (cns, wd)"
    by (cases "Range (\<lambda>svcId _ (cns, wd).
            case Load (ids sc) svcId of
              None \<Rightarrow> ((cns, wd), True)
            | Some svc \<Rightarrow> ((set_add (Namespace (h svc)) cns, set_add svcId wd), True))
         (pendingServices sc) (changeNs, [])")
  from a r have c: "changeNs' = cns"
    and s: "sc' = sc\<lparr>pendingServices := fold (\<lambda>svcId m. Delete svcId m) wd (pendingServices sc)\<rparr>"
    by (simp_all add: appendServiceCountChangeNamespace_def)
  from drain_Range[OF r] have d1: "set cns = set changeNs \<union>
     {Namespace (h p) |k p. k \<in> fst ` set (pendingServices sc) \<and> Load (ids sc) k = Some p}"
    and d2: "set wd = {k \<in> fst ` set (pendingServices sc). Load (ids sc) k \<noteq> None}"
    by simp_all
  have "filter (\<lambda>(k, _). k \<notin> set wd) (pendingServices sc)
          = filter (\<lambda>(k, _). Load (ids sc) k = None) (pendingServices sc)"
    unfolding d2 by (rule filter_cong) (auto simp: image_iff)
  then show ?thesis using c s d1 by (simp add: fold_Delete)
qed

text \<open>
  C6: \<open>appendServiceCountChangeNamespace\<close> removes from the pending set exactly the
  identifiers that the primary index now holds, keeps the others, changes nothing else
  in the cache, and adds the namespaces of the removed identifiers' services to the
  affected set. \<open>postProcessUpdatedServices\<close> recounts on the drained cache over the
  extended set: the aggregate of the namespace of every drained identifier is the fresh
  recount of that namespace (or is removed when the namespace has no name sub-index).
\<close>

theorem pending_drained_before_recount:
  "(let r = appendServiceCountChangeNamespace h sc changeNs
    in fst r = sc\<lparr>pendingServices :=
                    filter (\<lambda>(k, _). Load (ids sc) k = None) (pendingServices sc)\<rparr> \<and>
       set (snd r) = set changeNs \<union>
         {Namespace (h p) |k p. k \<in> fst ` set (pendingServices sc) \<and> Load (ids sc) k = Some p} \<and>
       postProcessUpdatedServices inst h sc changeNs = countNamespaces inst h (fst r) (snd r)) \<and>
   pendingServices (postProcessUpdatedServices inst h sc changeNs) =
     filter (\<lambda>(k, _). Load (ids sc) k = None) (pendingServices sc) \<and>
   (\<forall>k p. k \<in> fst ` set (pendingServices sc) \<and> Load (ids sc) k = Some p \<longrightarrow>
      Load (namespaceServiceCnt (postProcessUpdatedServices inst h sc changeNs)) (Namespace (h p))
        = map_option (recount inst h) (Load (names sc) (Namespace (h p))))"
proof -
  obtain sc' cns where a: "appendServiceCountChangeNamespace h sc changeNs = (sc', cns)"
    by (cases "appendServiceCountChangeNamespace h sc changeNs")
  note d = append_drain[OF a]
  have p: "postProcessUpdatedServices inst h sc changeNs = countNamespaces inst h sc' cns"
    by (simp add: postProcessUpdatedServices_def a)
  have pend: "pendingServices (countNamespaces inst h sc' cns) = pendingServices sc'"
    by (subst countNamespaces_frame) simp
  have n: "names sc' = names sc" using d by simp
  have cnt: "\<And>k q. k \<in> fst ` set (pendingServices sc) \<Longrightarrow> Load (ids sc) k = Some q \<Longrightarrow>
      Load (namespaceServiceCnt (countNamespaces inst h sc' cns)) (Namespace (h q))
        = map_option (recount inst h) (Load (names sc) (Namespace (h q)))"
  proof -
    fix k q
    assume "k \<in> fst ` set (pendingServices sc)" "Load (ids sc) k = Some q"
    then have "Namespace (h q) \<in> set cns" using d by blast
    then show "Load (namespaceServiceCnt (countNamespaces inst h sc' cns)) (Namespace (h q))
        = map_option (recount inst h) (Load (names sc) (Namespace (h q)))"
      by (simp add: countNamespaces_Load n)
  qed
  have g1: "sc' = sc\<lparr>pendingServices :=
                    filter (\<lambda>(k, _). Load (ids sc) k = None) (pendingServices sc)\<rparr>"
    using d by blast
  have g2: "set cns = set changeNs \<union>
         {Namespace (h p) |k p. k \<in> fst ` set (pendingServices sc) \<and> Load (ids sc) k = Some p}"
    using d by blast
  have g4: "pendingServices sc' =
     filter (\<lambda>(k, _). Load (ids sc) k = None) (pendingServices sc)"
    using g1 by simp
  have g5: "\<forall>k p. k \<in> fst ` set (pendingServices sc) \<and> Load (ids sc) k = Some p \<longrightarrow>
      Load (namespaceServiceCnt (countNamespaces inst h sc' cns)) (Namespace (h p))
        = map_option (recount inst h) (Load (names sc) (Namespace (h p)))"
    using cnt by blast
  show ?thesis
    unfolding Let_def a p fst_conv snd_conv pend
    using g1 g2 g4 g5 by blast
qed

theorem pending_drained_before_recount_witness:
  "pendingServices (postProcessUpdatedServices ex_inst ex_heap ex_pending []) = [(''id-x'', ())] \<and>
   set (snd (appendServiceCountChangeNamespace ex_heap ex_pending [])) = {''default''} \<and>
   Load (namespaceServiceCnt (postProcessUpdatedServices ex_inst ex_heap ex_pending []))
     ''default''
     = Some \<lparr>ServiceCount = 1,
             InstanceCnt = Some \<lparr>HealthyInstanceCount = 1, TotalInstanceCount = 2\<rparr>\<rparr>"
proof -
  note t = pending_drained_before_recount
             [where h = ex_heap and sc = ex_pending and changeNs = "[]" and inst = ex_inst,
              unfolded Let_def]
  from t have t1: "pendingServices (postProcessUpdatedServices ex_inst ex_heap ex_pending []) =
     filter (\<lambda>(k, _). Load (ids ex_pending) k = None) (pendingServices ex_pending)"
    by blast
  from t have t2: "set (snd (appendServiceCountChangeNamespace ex_heap ex_pending [])) =
     set [] \<union> {Namespace (ex_heap p) |k p.
                  k \<in> fst ` set (pendingServices ex_pending) \<and> Load (ids ex_pending) k = Some p}"
    by blast
  from t have t3: "''id-a'' \<in> fst ` set (pendingServices ex_pending) \<and>
                   Load (ids ex_pending) ''id-a'' = Some 1 \<longrightarrow>
      Load (namespaceServiceCnt (postProcessUpdatedServices ex_inst ex_heap ex_pending []))
           (Namespace (ex_heap 1))
        = map_option (recount ex_inst ex_heap) (Load (names ex_pending) (Namespace (ex_heap 1)))"
    by blast
  have p: "pendingServices ex_pending = [(''id-a'', ()), (''id-x'', ())]"
    and i: "ids ex_pending = [(''id-a'', 1)]"
    and n: "names ex_pending = [(''default'', [(''a'', 1)])]"
    by (simp_all add: ex_pending_def)
  have ns: "Namespace (ex_heap 1) = ''default''"
    by (simp add: ex_heap_def ex_service_def)
  have ns': "Namespace (ex_heap (Suc 0)) = ''default''"
    by (simp add: ex_heap_def ex_service_def)
  have r1: "pendingServices (postProcessUpdatedServices ex_inst ex_heap ex_pending [])
              = [(''id-x'', ())]"
    unfolding t1 p i by (simp add: Load_def)
  have r2: "set (snd (appendServiceCountChangeNamespace ex_heap ex_pending [])) = {''default''}"
    unfolding t2 p i by (auto simp: Load_def ns')
  have r: "recount ex_inst ex_heap [(''a'', 1)]
             = \<lparr>ServiceCount = 1,
                InstanceCnt = Some \<lparr>HealthyInstanceCount = 1, TotalInstanceCount = 2\<rparr>\<rparr>"
    by code_simp
  have pre: "''id-a'' \<in> fst ` set (pendingServices ex_pending) \<and>
             Load (ids ex_pending) ''id-a'' = Some 1"
    unfolding p i by (simp add: Load_def)
  have l: "Load [(''default'', [(''a'', 1::nat)])] ''default'' = Some [(''a'', 1)]"
    by (simp add: Load_def)
  from t3 pre have
    "Load (namespaceServiceCnt (postProcessUpdatedServices ex_inst ex_heap ex_pending []))
           (Namespace (ex_heap 1))
        = map_option (recount ex_inst ex_heap) (Load (names ex_pending) (Namespace (ex_heap 1)))"
    by blast
  then have r3:
    "Load (namespaceServiceCnt (postProcessUpdatedServices ex_inst ex_heap ex_pending []))
     ''default''
     = Some \<lparr>ServiceCount = 1,
             InstanceCnt = Some \<lparr>HealthyInstanceCount = 1, TotalInstanceCount = 2\<rparr>\<rparr>"
    by (simp only: ns n l r option.map)
  from r1 r2 r3 show ?thesis by blast
qed

subsection \<open>The parts of the cache after a merge\<close>

lemma postProcessUpdatedServices_frame:
  "postProcessUpdatedServices inst h sc aff =
     sc\<lparr>pendingServices := filter (\<lambda>(k, _). Load (ids sc) k = None) (pendingServices sc),
        namespaceServiceCnt := namespaceServiceCnt (postProcessUpdatedServices inst h sc aff)\<rparr>"
proof -
  obtain sc' cns where a: "appendServiceCountChangeNamespace h sc aff = (sc', cns)"
    by (cases "appendServiceCountChangeNamespace h sc aff")
  have s: "sc' = sc\<lparr>pendingServices :=
                    filter (\<lambda>(k, _). Load (ids sc) k = None) (pendingServices sc)\<rparr>"
    using append_drain[OF a] by blast
  have p: "postProcessUpdatedServices inst h sc aff = countNamespaces inst h sc' cns"
    by (simp add: postProcessUpdatedServices_def a)
  have "countNamespaces inst h sc' cns =
          sc'\<lparr>namespaceServiceCnt := namespaceServiceCnt (countNamespaces inst h sc' cns)\<rparr>"
    by (rule countNamespaces_frame)
  then show ?thesis unfolding p by (simp add: s)
qed

lemma postProcessUpdatedServices_Load:
  "ns \<in> set aff \<Longrightarrow>
   Load (namespaceServiceCnt (postProcessUpdatedServices inst h sc aff)) ns =
     map_option (recount inst h) (Load (names sc) ns)"
proof -
  assume m: "ns \<in> set aff"
  obtain sc' cns where a: "appendServiceCountChangeNamespace h sc aff = (sc', cns)"
    by (cases "appendServiceCountChangeNamespace h sc aff")
  have s: "names sc' = names sc" and c: "ns \<in> set cns"
    using append_drain[OF a] m by auto
  have p: "postProcessUpdatedServices inst h sc aff = countNamespaces inst h sc' cns"
    by (simp add: postProcessUpdatedServices_def a)
  show ?thesis unfolding p using c by (simp add: countNamespaces_Load s)
qed

lemma setServices_parts:
  assumes "services \<noteq> []"
      and "setServices_loop h (map snd services) (sc, initLocals sc) = (sc1, L)"
  shows "ids (fst (setServices inst h sc services)) = ids sc1"
    and "names (fst (setServices inst h sc services)) = names sc1"
    and "serviceCount (fst (setServices inst h sc services)) = l_svcCount L"
    and "aliasBucket (fst (setServices inst h sc services)) =
           fold (alias_rule h (ids sc1)) (l_aliases L) (aliasBucket sc1)"
    and "pendingServices (fst (setServices inst h sc services)) =
           filter (\<lambda>(k, _). Load (ids sc1) k = None) (pendingServices sc1)"
    and "ns \<in> set (l_changeNs L) \<Longrightarrow>
           Load (namespaceServiceCnt (fst (setServices inst h sc services))) ns =
             map_option (recount inst h) (Load (names sc1) ns)"
proof -
  let ?sc2 = "sc1\<lparr>serviceCount := l_svcCount L\<rparr>"
  let ?sc3 = "?sc2\<lparr>aliasBucket := fold (alias_rule h (ids sc1)) (l_aliases L) (aliasBucket sc1)\<rparr>"
  let ?sc4 = "postProcessUpdatedServices inst h ?sc3 (l_changeNs L)"
  have a: "postProcessServiceAlias h ?sc2 (l_aliases L) = ?sc3"
    by (subst postProcessServiceAlias_fold) simp
  have e: "fst (setServices inst h sc services) =
             ?sc4\<lparr>serviceList := reloadRevision h (serviceList ?sc4)\<rparr>"
    using setServices_nonempty[OF assms(1), of inst h sc]
    by (simp add: Let_def assms(2) a)
  have f: "?sc4 = ?sc3\<lparr>pendingServices :=
                    filter (\<lambda>(k, _). Load (ids ?sc3) k = None) (pendingServices ?sc3),
                  namespaceServiceCnt := namespaceServiceCnt ?sc4\<rparr>"
    by (rule postProcessUpdatedServices_frame)
  show "ids (fst (setServices inst h sc services)) = ids sc1"
    unfolding e by (subst f) simp
  show "names (fst (setServices inst h sc services)) = names sc1"
    unfolding e by (subst f) simp
  show "serviceCount (fst (setServices inst h sc services)) = l_svcCount L"
    unfolding e by (subst f) simp
  show "aliasBucket (fst (setServices inst h sc services)) =
           fold (alias_rule h (ids sc1)) (l_aliases L) (aliasBucket sc1)"
    unfolding e by (subst f) simp
  show "pendingServices (fst (setServices inst h sc services)) =
           filter (\<lambda>(k, _). Load (ids sc1) k = None) (pendingServices sc1)"
    unfolding e by (subst f) simp
  show "ns \<in> set (l_changeNs L) \<Longrightarrow>
           Load (namespaceServiceCnt (fst (setServices inst h sc services))) ns =
             map_option (recount inst h) (Load (names sc1) ns)"
    unfolding e by (simp add: postProcessUpdatedServices_Load)
qed

subsection \<open>The alias post-pass\<close>

lemma list_ex_addServiceAlias: "list_ex (same_link h a t) (addServiceAlias h a t b)"
  by (simp add: addServiceAlias_def same_link_def)

lemma list_ex_delServiceAlias: "\<not> list_ex (same_link h a t) (delServiceAlias h a t b)"
  by (simp add: delServiceAlias_def list_ex_iff)

text \<open>
  C5: \<open>postProcessServiceAlias\<close> changes the alias bucket only, and handles the deferred
  records in order by the three-way rule \<open>alias_rule\<close> against the primary index: target
  absent, the bucket is untouched; target and alias present, the link is added (the
  bucket then holds it); target present and alias absent, the link is removed (the
  bucket then does not hold it). In \<open>setServices\<close> the deferred records are the alias
  entities of the batch, and the rule is applied against the primary index as the loop
  over the whole batch left it. The function has no error result.
\<close>

theorem alias_post_pass:
  "postProcessServiceAlias h sc aliases =
     sc\<lparr>aliasBucket := fold (alias_rule h (ids sc)) aliases (aliasBucket sc)\<rparr> \<and>
   (services \<noteq> [] \<longrightarrow>
      (let sc1 = fst (setServices_loop h (map snd services) (sc, initLocals sc))
       in ids (fst (setServices inst h sc services)) = ids sc1 \<and>
          aliasBucket (fst (setServices inst h sc services)) =
            fold (alias_rule h (ids sc1)) (filter (\<lambda>p. IsAlias (h p)) (map snd services))
              (aliasBucket sc1))) \<and>
   (Load idx (Reference (h a)) = None \<longrightarrow> alias_rule h idx a b = b) \<and>
   (Load idx (Reference (h a)) = Some t \<and> Load idx (ID (h a)) \<noteq> None \<longrightarrow>
      alias_rule h idx a b = addServiceAlias h a t b \<and>
      list_ex (same_link h a t) (alias_rule h idx a b)) \<and>
   (Load idx (Reference (h a)) = Some t \<and> Load idx (ID (h a)) = None \<longrightarrow>
      alias_rule h idx a b = delServiceAlias h a t b \<and>
      \<not> list_ex (same_link h a t) (alias_rule h idx a b))"
proof -
  obtain sc1 L where l: "setServices_loop h (map snd services) (sc, initLocals sc) = (sc1, L)"
    by (cases "setServices_loop h (map snd services) (sc, initLocals sc)")
  have al: "l_aliases L = filter (\<lambda>p. IsAlias (h p)) (map snd services)"
    using loop_aliases[of h "map snd services" sc "initLocals sc"] l
    by (simp add: initLocals_def)
  have s: "services \<noteq> [] \<longrightarrow>
      (let sc1 = fst (setServices_loop h (map snd services) (sc, initLocals sc))
       in ids (fst (setServices inst h sc services)) = ids sc1 \<and>
          aliasBucket (fst (setServices inst h sc services)) =
            fold (alias_rule h (ids sc1)) (filter (\<lambda>p. IsAlias (h p)) (map snd services))
              (aliasBucket sc1))"
    using setServices_parts(1,4)[OF _ l, of inst] by (simp add: l al)
  have r1: "Load idx (Reference (h a)) = None \<longrightarrow> alias_rule h idx a b = b"
    by (simp add: alias_rule_def)
  have r2: "Load idx (Reference (h a)) = Some t \<and> Load idx (ID (h a)) \<noteq> None \<longrightarrow>
      alias_rule h idx a b = addServiceAlias h a t b \<and>
      list_ex (same_link h a t) (alias_rule h idx a b)"
    using list_ex_addServiceAlias[of h a t b] by (auto simp: alias_rule_def)
  have r3: "Load idx (Reference (h a)) = Some t \<and> Load idx (ID (h a)) = None \<longrightarrow>
      alias_rule h idx a b = delServiceAlias h a t b \<and>
      \<not> list_ex (same_link h a t) (alias_rule h idx a b)"
    using list_ex_delServiceAlias[of h a t b] by (auto simp: alias_rule_def)
  show ?thesis
    using postProcessServiceAlias_fold[of h sc aliases] s r1 r2 r3 by blast
qed

theorem alias_post_pass_witness:
  "aliasBucket (fst (setServices ex_inst ex_heap ex_cache [(''id-c'', 3), (''id-a'', 1)]))
     = [(3, 1)] \<and>
   aliasBucket (postProcessServiceAlias ex_heap
                  (ex_pending\<lparr>aliasBucket := [(3, 1)]\<rparr>) [5]) = [] \<and>
   aliasBucket (postProcessServiceAlias ex_heap ex_cache [3]) = []"
proof -
  note t1 = alias_post_pass
              [where h = ex_heap and sc = ex_cache and inst = ex_inst
                 and services = "[(''id-c'', 3), (''id-a'', 1)]"]
  have ne: "[(''id-c'', 3::nat), (''id-a'', 1)] \<noteq> []" by simp
  from t1 ne have
    "(let sc1 = fst (setServices_loop ex_heap (map snd [(''id-c'', 3), (''id-a'', 1)])
                       (ex_cache, initLocals ex_cache))
      in ids (fst (setServices ex_inst ex_heap ex_cache [(''id-c'', 3), (''id-a'', 1)]))
           = ids sc1 \<and>
         aliasBucket (fst (setServices ex_inst ex_heap ex_cache [(''id-c'', 3), (''id-a'', 1)])) =
            fold (alias_rule ex_heap (ids sc1))
              (filter (\<lambda>p. IsAlias (ex_heap p)) (map snd [(''id-c'', 3), (''id-a'', 1)]))
              (aliasBucket sc1))"
    by blast
  then have e1:
    "aliasBucket (fst (setServices ex_inst ex_heap ex_cache [(''id-c'', 3), (''id-a'', 1)])) =
       (let sc1 = fst (setServices_loop ex_heap (map snd [(''id-c'', 3), (''id-a'', 1)])
                       (ex_cache, initLocals ex_cache))
        in fold (alias_rule ex_heap (ids sc1))
              (filter (\<lambda>p. IsAlias (ex_heap p)) (map snd [(''id-c'', 3), (''id-a'', 1)]))
              (aliasBucket sc1))"
    by (simp add: Let_def)
  have v1: "(let sc1 = fst (setServices_loop ex_heap (map snd [(''id-c'', 3), (''id-a'', 1)])
                       (ex_cache, initLocals ex_cache))
        in fold (alias_rule ex_heap (ids sc1))
              (filter (\<lambda>p. IsAlias (ex_heap p)) (map snd [(''id-c'', 3), (''id-a'', 1)]))
              (aliasBucket sc1)) = [(3, 1)]"
    by code_simp
  note t2 = alias_post_pass
              [where h = ex_heap and sc = "ex_pending\<lparr>aliasBucket := [(3, 1)]\<rparr>"
                 and aliases = "[5]", THEN conjunct1]
  have v2: "fold (alias_rule ex_heap (ids (ex_pending\<lparr>aliasBucket := [(3, 1)]\<rparr>))) [5]
              (aliasBucket (ex_pending\<lparr>aliasBucket := [(3, 1)]\<rparr>)) = []"
    by code_simp
  note t3 = alias_post_pass
              [where h = ex_heap and sc = ex_cache and aliases = "[3]", THEN conjunct1]
  have v3: "fold (alias_rule ex_heap (ids ex_cache)) [3] (aliasBucket ex_cache) = []"
    by code_simp
  have r1: "aliasBucket (fst (setServices ex_inst ex_heap ex_cache [(''id-c'', 3), (''id-a'', 1)]))
     = [(3, 1)]"
    using e1 v1 by simp
  have r2: "aliasBucket (postProcessServiceAlias ex_heap
                  (ex_pending\<lparr>aliasBucket := [(3, 1)]\<rparr>) [5]) = []"
    by (subst t2, simp only: v2, simp)
  have r3: "aliasBucket (postProcessServiceAlias ex_heap ex_cache [3]) = []"
    by (subst t3, simp only: v3, simp)
  from r1 r2 r3 show ?thesis by blast
qed

subsection \<open>The namespace aggregates after a merge\<close>

lemma recount_empty:
  "recount inst h [] =
     \<lparr>ServiceCount = 0,
      InstanceCnt = Some \<lparr>HealthyInstanceCount = 0, TotalInstanceCount = 0\<rparr>\<rparr>"
  by (simp add: recount_def)

text \<open>
  C3, as the code has it: after a merge, the aggregate of the namespace of every entity
  of the batch is the fresh recount of that namespace's name sub-index. It is removed
  when the name index has no entry for the namespace; when the sub-index is there but
  empty, the aggregate is kept with zeroed counts.
\<close>

theorem namespace_aggregate_after_merge:
  assumes "(k, p) \<in> set services"
  shows "(let sc' = fst (setServices inst h sc services); ns = Namespace (h p)
          in Load (namespaceServiceCnt sc') ns
               = map_option (recount inst h) (Load (names sc') ns) \<and>
             (Load (names sc') ns = None \<longrightarrow> Load (namespaceServiceCnt sc') ns = None) \<and>
             (Load (names sc') ns = Some [] \<longrightarrow>
                Load (namespaceServiceCnt sc') ns =
                  Some \<lparr>ServiceCount = 0,
                        InstanceCnt = Some \<lparr>HealthyInstanceCount = 0,
                                            TotalInstanceCount = 0\<rparr>\<rparr>))"
proof -
  obtain sc1 L where l: "setServices_loop h (map snd services) (sc, initLocals sc) = (sc1, L)"
    by (cases "setServices_loop h (map snd services) (sc, initLocals sc)")
  have ne: "services \<noteq> []" using assms by auto
  have "p \<in> set (map snd services)" using assms by force
  then have c: "Namespace (h p) \<in> set (l_changeNs L)"
    using loop_changeNs[of h "map snd services" sc "initLocals sc"] l by auto
  have n: "names (fst (setServices inst h sc services)) = names sc1"
    by (rule setServices_parts(2)[OF ne l])
  have m: "Load (namespaceServiceCnt (fst (setServices inst h sc services))) (Namespace (h p))
             = map_option (recount inst h)
                 (Load (names (fst (setServices inst h sc services))) (Namespace (h p)))"
    unfolding n by (rule setServices_parts(6)[OF ne l c])
  show ?thesis
    unfolding Let_def using m by (simp add: recount_empty)
qed

theorem namespace_aggregate_after_merge_witness:
  "Load (namespaceServiceCnt (fst (setServices ex_inst ex_heap ex_cache [(''id-d'', 7)])))
     ''test'' = None \<and>
   Load (namespaceServiceCnt (fst (setServices ex_inst ex_heap ex_cache [(''id-a'', 1)])))
     ''default'' =
     Some \<lparr>ServiceCount = 1,
           InstanceCnt = Some \<lparr>HealthyInstanceCount = 1, TotalInstanceCount = 2\<rparr>\<rparr>"
proof -
  have m1: "(''id-d'', 7) \<in> set [(''id-d'', 7::nat)]" by simp
  have m2: "(''id-a'', 1) \<in> set [(''id-a'', 1::nat)]" by simp
  note t1 = namespace_aggregate_after_merge
              [OF m1, where inst = ex_inst and h = ex_heap and sc = ex_cache, unfolded Let_def,
               THEN conjunct2, THEN conjunct1]
  note t2 = namespace_aggregate_after_merge
              [OF m2, where inst = ex_inst and h = ex_heap and sc = ex_cache, unfolded Let_def,
               THEN conjunct1]
  have n1: "Namespace (ex_heap 7) = ''test''" and n2: "Namespace (ex_heap 1) = ''default''"
    by (simp_all add: ex_heap_def ex_service_def)
  have v1: "Load (names (fst (setServices ex_inst ex_heap ex_cache [(''id-d'', 7)]))) ''test''
              = None"
    by code_simp
  have v2: "map_option (recount ex_inst ex_heap)
              (Load (names (fst (setServices ex_inst ex_heap ex_cache [(''id-a'', 1)])))
                 ''default'') =
            Some \<lparr>ServiceCount = 1,
                  InstanceCnt = Some \<lparr>HealthyInstanceCount = 1, TotalInstanceCount = 2\<rparr>\<rparr>"
    by code_simp
  have r1: "Load (namespaceServiceCnt (fst (setServices ex_inst ex_heap ex_cache [(''id-d'', 7)])))
     ''test'' = None"
    using t1 v1 unfolding n1 by blast
  have r2: "Load (namespaceServiceCnt (fst (setServices ex_inst ex_heap ex_cache [(''id-a'', 1)])))
     ''default'' =
     Some \<lparr>ServiceCount = 1,
           InstanceCnt = Some \<lparr>HealthyInstanceCount = 1, TotalInstanceCount = 2\<rparr>\<rparr>"
    using t2 v2 unfolding n2 by simp
  from r1 r2 show ?thesis by blast
qed

text \<open>
  The claim as stated fails: service \<open>id-d\<close> is merged into namespace \<open>test\<close> and then
  soft-deleted by the next batch. The namespace has no member left (its sub-index is
  empty and the primary index is empty), and its aggregate is still in the count map,
  with zero counts.
\<close>

theorem namespace_aggregate_zeroed_not_removed:
  "ids (fst (setServices ex_inst ex_heap
               (fst (setServices ex_inst ex_heap ex_cache [(''id-d'', 6)])) [(''id-d'', 7)])) = [] \<and>
   Load (names (fst (setServices ex_inst ex_heap
               (fst (setServices ex_inst ex_heap ex_cache [(''id-d'', 6)])) [(''id-d'', 7)])))
     ''test'' = Some [] \<and>
   Load (namespaceServiceCnt (fst (setServices ex_inst ex_heap
               (fst (setServices ex_inst ex_heap ex_cache [(''id-d'', 6)])) [(''id-d'', 7)])))
     ''test'' =
     Some \<lparr>ServiceCount = 0,
           InstanceCnt = Some \<lparr>HealthyInstanceCount = 0, TotalInstanceCount = 0\<rparr>\<rparr> \<and>
   Load (namespaceServiceCnt (fst (setServices ex_inst ex_heap
               (fst (setServices ex_inst ex_heap ex_cache [(''id-d'', 6)])) [(''id-d'', 7)])))
     ''test'' \<noteq> None"
  by code_simp

subsection \<open>Counting\<close>

lemma Range_count: "Range (\<lambda>key value count. (count + 1, True)) m (c :: int) = c + int (length m)"
  by (induction m arbitrary: c) auto

lemma GetServicesCount_length: "GetServicesCount sc = int (length (ids sc))"
  by (simp add: GetServicesCount_def Range_count)

lemma length_Store:
  "length (Store k v m) = (if Load m k = None then Suc (length m) else length m)"
  unfolding Store_def Load_def by (induction m) auto

lemma length_Delete:
  "distinct (map fst m) \<Longrightarrow>
   length (Delete k m) = (if Load m k = None then length m else length m - 1)"
  unfolding Delete_def Load_def
proof (induction m)
  case Nil
  show ?case by simp
next
  case (Cons x m)
  obtain a b where x: "x = (a, b)" by (cases x)
  show ?case
  proof (cases "a = k")
    case True
    with Cons.prems x have "k \<notin> fst ` set m" by auto
    then show ?thesis using True x by simp
  next
    case False
    have "map_of m k \<noteq> None \<Longrightarrow> m \<noteq> []" by auto
    then show ?thesis using False x Cons by (auto simp: Suc_diff_Suc neq_Nil_conv)
  qed
qed

lemma distinct_Store: "distinct (map fst m) \<Longrightarrow> distinct (map fst (Store k v m))"
  by (simp add: Store_def distinct_update)

lemma distinct_Delete: "distinct (map fst m) \<Longrightarrow> distinct (map fst (Delete k m))"
  by (simp add: Delete_def distinct_delete)

lemma body_ids_distinct:
  "distinct (map fst (ids sc)) \<Longrightarrow> distinct (map fst (ids (fst (setServices_body h p (sc, L)))))"
  by (simp add: body_ids distinct_Store distinct_Delete)

lemma body_ids_length:
  "distinct (map fst (ids sc)) \<Longrightarrow>
   int (length (ids (fst (setServices_body h p (sc, L))))) =
     int (length (ids sc)) +
       (if Valid (h p) then (if Load (ids sc) (ID (h p)) = None then 1 else 0)
        else (if Load (ids sc) (ID (h p)) = None then 0 else - 1))"
proof -
  assume d: "distinct (map fst (ids sc))"
  have "\<And>m :: (string \<times> ptr) list. m \<noteq> [] \<Longrightarrow> int (length m - Suc 0) = int (length m) - 1"
  proof -
    fix m :: "(string \<times> ptr) list"
    assume "m \<noteq> []"
    then show "int (length m - Suc 0) = int (length m) - 1" by (cases m) auto
  qed
  moreover have "Load (ids sc) (ID (h p)) \<noteq> None \<Longrightarrow> ids sc \<noteq> []"
    by (auto simp: Load_def)
  ultimately show ?thesis
    by (auto simp: body_ids length_Store length_Delete[OF d])
qed

lemma body_ids_Load_other:
  "i \<noteq> ID (h p) \<Longrightarrow> Load (ids (fst (setServices_body h p (sc, L)))) i = Load (ids sc) i"
  by (simp add: body_ids Load_Store Load_Delete)

lemma loop_ids_length:
  "distinct (map fst (ids sc)) \<Longrightarrow> distinct (map (\<lambda>p. ID (h p)) ps) \<Longrightarrow>
   int (length (ids (fst (setServices_loop h ps (sc, L))))) =
     int (length (ids sc))
       + int (length (filter (\<lambda>p. Valid (h p) \<and> Load (ids sc) (ID (h p)) = None) ps))
       - int (length (filter (\<lambda>p. \<not> Valid (h p) \<and> Load (ids sc) (ID (h p)) \<noteq> None) ps))"
proof (induction ps arbitrary: sc L)
  case Nil
  show ?case by simp
next
  case (Cons p ps)
  obtain sc' L' where b: "setServices_body h p (sc, L) = (sc', L')"
    by (cases "setServices_body h p (sc, L)")
  have d': "distinct (map fst (ids sc'))"
    using body_ids_distinct[OF Cons.prems(1), of h p L] b by simp
  have dps: "distinct (map (\<lambda>p. ID (h p)) ps)" using Cons.prems(2) by simp
  have other: "\<And>q. q \<in> set ps \<Longrightarrow> Load (ids sc') (ID (h q)) = Load (ids sc) (ID (h q))"
  proof -
    fix q assume "q \<in> set ps"
    then have "ID (h q) \<noteq> ID (h p)" using Cons.prems(2) by (auto simp: image_iff)
    then show "Load (ids sc') (ID (h q)) = Load (ids sc) (ID (h q))"
      using body_ids_Load_other[of "ID (h q)" h p sc L] b by simp
  qed
  have f1: "filter (\<lambda>p. Valid (h p) \<and> Load (ids sc') (ID (h p)) = None) ps
          = filter (\<lambda>p. Valid (h p) \<and> Load (ids sc) (ID (h p)) = None) ps"
    by (rule filter_cong) (auto simp: other)
  have f2: "filter (\<lambda>p. \<not> Valid (h p) \<and> Load (ids sc') (ID (h p)) \<noteq> None) ps
          = filter (\<lambda>p. \<not> Valid (h p) \<and> Load (ids sc) (ID (h p)) \<noteq> None) ps"
    by (rule filter_cong) (auto simp: other)
  have step: "int (length (ids sc')) =
     int (length (ids sc)) +
       (if Valid (h p) then (if Load (ids sc) (ID (h p)) = None then 1 else 0)
        else (if Load (ids sc) (ID (h p)) = None then 0 else - 1))"
    using body_ids_length[OF Cons.prems(1), of h p L] b by simp
  have "int (length (ids (fst (setServices_loop h ps (sc', L'))))) =
     int (length (ids sc'))
       + int (length (filter (\<lambda>p. Valid (h p) \<and> Load (ids sc') (ID (h p)) = None) ps))
       - int (length (filter (\<lambda>p. \<not> Valid (h p) \<and> Load (ids sc') (ID (h p)) \<noteq> None) ps))"
    by (rule Cons.IH[OF d' dps])
  then show ?case unfolding f1 f2 step using b by simp
qed

lemma loop_svcCount:
  "distinct (map (\<lambda>p. ID (h p)) ps) \<Longrightarrow>
   l_svcCount (snd (setServices_loop h ps (sc, L))) =
     l_svcCount L
       + int (length (filter (\<lambda>p. Valid (h p) \<and> Load (ids sc) (ID (h p)) = None) ps))
       - int (length (filter (\<lambda>p. \<not> Valid (h p)) ps))"
proof (induction ps arbitrary: sc L)
  case Nil
  show ?case by simp
next
  case (Cons p ps)
  obtain sc' L' where b: "setServices_body h p (sc, L) = (sc', L')"
    by (cases "setServices_body h p (sc, L)")
  have dps: "distinct (map (\<lambda>p. ID (h p)) ps)" using Cons.prems by simp
  have other: "\<And>q. q \<in> set ps \<Longrightarrow> Load (ids sc') (ID (h q)) = Load (ids sc) (ID (h q))"
  proof -
    fix q assume "q \<in> set ps"
    then have "ID (h q) \<noteq> ID (h p)" using Cons.prems by (auto simp: image_iff)
    then show "Load (ids sc') (ID (h q)) = Load (ids sc) (ID (h q))"
      using body_ids_Load_other[of "ID (h q)" h p sc L] b by simp
  qed
  have f1: "filter (\<lambda>p. Valid (h p) \<and> Load (ids sc') (ID (h p)) = None) ps
          = filter (\<lambda>p. Valid (h p) \<and> Load (ids sc) (ID (h p)) = None) ps"
    by (rule filter_cong) (auto simp: other)
  have step: "l_svcCount L' =
     l_svcCount L + (if \<not> Valid (h p) then - 1
                     else if Load (ids sc) (ID (h p)) = None then 1 else 0)"
    using body_svcCount[of h p sc L] b by simp
  have "l_svcCount (snd (setServices_loop h ps (sc', L'))) =
     l_svcCount L'
       + int (length (filter (\<lambda>p. Valid (h p) \<and> Load (ids sc') (ID (h p)) = None) ps))
       - int (length (filter (\<lambda>p. \<not> Valid (h p)) ps))"
    by (rule Cons.IH[OF dps])
  then show ?case unfolding f1 step using b by simp
qed

lemma length_filter_snd:
  "length (filter P (map snd xs)) = length (filter (\<lambda>(k, p). P p) xs)"
  by (induction xs) auto

text \<open>
  C1, as the code has it: let the primary index be a map (no key twice in its list of
  entries) and let the entities of the batch have pairwise distinct identifiers (the
  batch is a map keyed by identifier). After the merge,
  \<open>GetServicesCount\<close> is its value before the batch, plus the number of valid entities
  whose identifier the primary index did not hold, minus the number of soft-deleted
  entities whose identifier the primary index did hold. If moreover the running total
  equalled the cardinality of the primary index before the batch and every
  soft-deleted entity of the batch was in the primary index, the running total equals
  the cardinality after the batch.
\<close>

theorem count_after_merge:
  assumes "distinct (map fst (ids sc))"
      and "distinct (map (\<lambda>(k, p). ID (h p)) services)"
  shows "GetServicesCount (fst (setServices inst h sc services)) =
           GetServicesCount sc
             + int (length (filter (\<lambda>(k, p). Valid (h p) \<and> Load (ids sc) (ID (h p)) = None)
                              services))
             - int (length (filter (\<lambda>(k, p). \<not> Valid (h p) \<and> Load (ids sc) (ID (h p)) \<noteq> None)
                              services)) \<and>
         (serviceCount sc = GetServicesCount sc \<and>
          list_all (\<lambda>(k, p). \<not> Valid (h p) \<longrightarrow> Load (ids sc) (ID (h p)) \<noteq> None) services \<longrightarrow>
            serviceCount (fst (setServices inst h sc services)) =
              GetServicesCount (fst (setServices inst h sc services)))"
proof (cases "services = []")
  case True
  then show ?thesis by (simp add: setServices_def)
next
  case False
  let ?ps = "map snd services"
  obtain sc1 L where l: "setServices_loop h ?ps (sc, initLocals sc) = (sc1, L)"
    by (cases "setServices_loop h ?ps (sc, initLocals sc)")
  have dps: "distinct (map (\<lambda>p. ID (h p)) ?ps)"
    using assms(2) by (simp add: comp_def split_def)
  have i: "ids (fst (setServices inst h sc services)) = ids sc1"
    by (rule setServices_parts(1)[OF False l])
  have c: "serviceCount (fst (setServices inst h sc services)) = l_svcCount L"
    by (rule setServices_parts(3)[OF False l])
  have len: "int (length (ids sc1)) =
     int (length (ids sc))
       + int (length (filter (\<lambda>(k, p). Valid (h p) \<and> Load (ids sc) (ID (h p)) = None) services))
       - int (length (filter (\<lambda>(k, p). \<not> Valid (h p) \<and> Load (ids sc) (ID (h p)) \<noteq> None)
                        services))"
    using loop_ids_length[OF assms(1) dps, of "initLocals sc", unfolded length_filter_snd l]
    by simp
  have svc: "l_svcCount L =
     serviceCount sc
       + int (length (filter (\<lambda>(k, p). Valid (h p) \<and> Load (ids sc) (ID (h p)) = None) services))
       - int (length (filter (\<lambda>(k, p). \<not> Valid (h p)) services))"
    using loop_svcCount[OF dps, of sc "initLocals sc", unfolded length_filter_snd l]
    by (simp add: initLocals_def)
  have first: "GetServicesCount (fst (setServices inst h sc services)) =
           GetServicesCount sc
             + int (length (filter (\<lambda>(k, p). Valid (h p) \<and> Load (ids sc) (ID (h p)) = None)
                              services))
             - int (length (filter (\<lambda>(k, p). \<not> Valid (h p) \<and> Load (ids sc) (ID (h p)) \<noteq> None)
                              services))"
    by (simp add: GetServicesCount_length i len)
  have second: "serviceCount (fst (setServices inst h sc services)) =
              GetServicesCount (fst (setServices inst h sc services))"
    if eq: "serviceCount sc = GetServicesCount sc"
      and al: "list_all (\<lambda>(k, p). \<not> Valid (h p) \<longrightarrow> Load (ids sc) (ID (h p)) \<noteq> None) services"
  proof -
    have "filter (\<lambda>(k, p). \<not> Valid (h p)) services
            = filter (\<lambda>(k, p). \<not> Valid (h p) \<and> Load (ids sc) (ID (h p)) \<noteq> None) services"
      using al by (intro filter_cong) (auto simp: list_all_iff)
    then show ?thesis
      using eq by (simp add: c svc GetServicesCount_length i len)
  qed
  from first second show ?thesis by blast
qed

theorem count_after_merge_witness:
  "GetServicesCount
     (fst (setServices ex_inst ex_heap ex_two [(''id-a'', 4), (''id-d'', 6), (''id-b'', 2)])) = 2 \<and>
   serviceCount
     (fst (setServices ex_inst ex_heap ex_two [(''id-a'', 4), (''id-d'', 6), (''id-b'', 2)])) = 2"
proof -
  let ?b = "[(''id-a'', 4::nat), (''id-d'', 6), (''id-b'', 2)]"
  have d: "distinct (map fst (ids ex_two))" by code_simp
  have b: "distinct (map (\<lambda>(k, p). ID (ex_heap p)) ?b)" by code_simp
  note t = count_after_merge[OF d b, where inst = ex_inst]
  have g: "GetServicesCount ex_two = 2" by code_simp
  have u: "length (filter (\<lambda>(k, p). Valid (ex_heap p) \<and> Load (ids ex_two) (ID (ex_heap p)) = None)
                     ?b) = 1"
    by code_simp
  have v: "length (filter (\<lambda>(k, p). \<not> Valid (ex_heap p) \<and>
                                     Load (ids ex_two) (ID (ex_heap p)) \<noteq> None) ?b) = 1"
    by code_simp
  have s: "serviceCount ex_two = GetServicesCount ex_two" by code_simp
  have a: "list_all (\<lambda>(k, p). \<not> Valid (ex_heap p) \<longrightarrow> Load (ids ex_two) (ID (ex_heap p)) \<noteq> None)
             ?b"
    by code_simp
  from t have r1: "GetServicesCount (fst (setServices ex_inst ex_heap ex_two ?b)) = 2"
    unfolding g u v by simp
  from t s a have "serviceCount (fst (setServices ex_inst ex_heap ex_two ?b)) =
              GetServicesCount (fst (setServices ex_inst ex_heap ex_two ?b))"
    by blast
  with r1 show ?thesis by simp
qed

text \<open>
  The claim as stated fails: the batch soft-deletes an identifier that the empty cache
  does not hold, so U = 0 and D = 1. \<open>GetServicesCount\<close> stays 0 and is not 0 + U - D, and
  the running total has become -1, which is not the cardinality of the primary index.
\<close>

theorem count_formula_fails_on_absent_delete:
  "GetServicesCount (fst (setServices ex_inst ex_heap ex_cache [(''id-a'', 4)])) = 0 \<and>
   GetServicesCount (fst (setServices ex_inst ex_heap ex_cache [(''id-a'', 4)])) \<noteq>
     GetServicesCount ex_cache
       + int (length (filter (\<lambda>(k, p). Valid (ex_heap p) \<and>
                                        Load (ids ex_cache) (ID (ex_heap p)) = None)
                        [(''id-a'', 4)]))
       - int (length (filter (\<lambda>(k, p). \<not> Valid (ex_heap p)) [(''id-a'', 4)])) \<and>
   serviceCount (fst (setServices ex_inst ex_heap ex_cache [(''id-a'', 4)])) = - 1 \<and>
   serviceCount (fst (setServices ex_inst ex_heap ex_cache [(''id-a'', 4)])) \<noteq>
     GetServicesCount (fst (setServices ex_inst ex_heap ex_cache [(''id-a'', 4)]))"
  by code_simp

subsection \<open>Agreement of the primary index and the name index\<close>

lemma Load_in_keys: "Load m k = Some v \<Longrightarrow> (k, v) \<in> set m"
  by (simp add: Load_def map_of_SomeD)

lemma indices_agree_iff:
  "indices_agree h sc \<longleftrightarrow>
     (\<forall>i p. Load (ids sc) i = Some p \<longrightarrow>
        ID (h p) = i \<and> lookup_name sc (Namespace (h p)) (Name (h p)) = Some p) \<and>
     (\<forall>ns n p. lookup_name sc ns n = Some p \<longrightarrow>
        Namespace (h p) = ns \<and> Name (h p) = n \<and> Load (ids sc) (ID (h p)) = Some p)"
  (is "?L \<longleftrightarrow> ?A \<and> ?B")
proof
  assume l: ?L
  have a: ?A
  proof (intro allI impI)
    fix i p assume s: "Load (ids sc) i = Some p"
    then have "(i, p) \<in> set (ids sc)" by (rule Load_in_keys)
    with l have "case Load (ids sc) i of
                            None \<Rightarrow> True
                          | Some p \<Rightarrow> ID (h p) = i \<and>
                                      lookup_name sc (Namespace (h p)) (Name (h p)) = Some p"
      unfolding indices_agree_def list_all_iff by fast
    then show "ID (h p) = i \<and> lookup_name sc (Namespace (h p)) (Name (h p)) = Some p"
      using s by simp
  qed
  have b: ?B
  proof (intro allI impI)
    fix ns n p assume s: "lookup_name sc ns n = Some p"
    then obtain spaces where s1: "Load (names sc) ns = Some spaces"
      and s2: "Load spaces n = Some p"
      by (auto simp: lookup_name_def split: option.splits)
    from s1 have "(ns, spaces) \<in> set (names sc)" by (rule Load_in_keys)
    with l have "case Load (names sc) ns of
                             None \<Rightarrow> True
                           | Some spaces \<Rightarrow>
                               list_all (\<lambda>(n, _). case Load spaces n of
                                                     None \<Rightarrow> True
                                                   | Some p \<Rightarrow>
                                                       Namespace (h p) = ns \<and> Name (h p) = n \<and>
                                                       Load (ids sc) (ID (h p)) = Some p)
                                 spaces"
      unfolding indices_agree_def list_all_iff by fast
    with s1 have la: "list_all (\<lambda>(n, _). case Load spaces n of
                                                     None \<Rightarrow> True
                                                   | Some p \<Rightarrow>
                                                       Namespace (h p) = ns \<and> Name (h p) = n \<and>
                                                       Load (ids sc) (ID (h p)) = Some p)
                                 spaces" by simp
    from s2 have "(n, p) \<in> set spaces" by (rule Load_in_keys)
    with la have "case Load spaces n of
                                                     None \<Rightarrow> True
                                                   | Some p \<Rightarrow>
                                                       Namespace (h p) = ns \<and> Name (h p) = n \<and>
                                                       Load (ids sc) (ID (h p)) = Some p"
      unfolding list_all_iff by fast
    then show "Namespace (h p) = ns \<and> Name (h p) = n \<and> Load (ids sc) (ID (h p)) = Some p"
      using s2 by simp
  qed
  from a b show "?A \<and> ?B" by blast
next
  assume ab: "?A \<and> ?B"
  then have a: ?A and b: ?B by blast+
  have b': "Namespace (h p) = ns \<and> Name (h p) = n \<and> Load (ids sc) (ID (h p)) = Some p"
    if "Load (names sc) ns = Some spaces" and "Load spaces n = Some p" for ns spaces n p
  proof -
    from that have "lookup_name sc ns n = Some p" by (simp add: lookup_name_def)
    with b show ?thesis by blast
  qed
  show ?L
    unfolding indices_agree_def list_all_iff
    using a b' by (auto split: option.splits)
qed

lemma indices_agree_cong:
  "ids sc' = ids sc \<Longrightarrow> names sc' = names sc \<Longrightarrow> indices_agree h sc' = indices_agree h sc"
  by (simp add: indices_agree_iff lookup_name_def)

lemma body_Load_ids:
  "Load (ids (fst (setServices_body h p (sc, L)))) i =
     (if i = ID (h p) then (if Valid (h p) then Some p else None) else Load (ids sc) i)"
  by (simp add: body_ids Load_Store Load_Delete)

lemma body_lookup_name:
  "lookup_name (fst (setServices_body h p (sc, L))) ns n =
     (if ns = Namespace (h p) \<and> n = Name (h p) then (if Valid (h p) then Some p else None)
      else lookup_name sc ns n)"
proof (cases "Valid (h p)")
  case True
  let ?old = "case Load (names sc) (Namespace (h p)) of None \<Rightarrow> [] | Some m \<Rightarrow> m"
  have n: "names (fst (setServices_body h p (sc, L))) =
             Store (Namespace (h p)) (Store (Name (h p)) p ?old) (names sc)"
    using True by (simp add: body_names)
  have o: "Load ?old n = lookup_name sc (Namespace (h p)) n"
    by (cases "Load (names sc) (Namespace (h p))") (simp_all add: lookup_name_def Load_def)
  show ?thesis
  proof (cases "ns = Namespace (h p)")
    case ns: True
    have "lookup_name (fst (setServices_body h p (sc, L))) ns n
            = Load (Store (Name (h p)) p ?old) n"
      unfolding lookup_name_def n using ns by (simp add: Load_Store)
    also have "\<dots> = (if n = Name (h p) then Some p else lookup_name sc (Namespace (h p)) n)"
      by (simp add: Load_Store o)
    finally show ?thesis using True ns by simp
  next
    case ns: False
    have "lookup_name (fst (setServices_body h p (sc, L))) ns n = lookup_name sc ns n"
      unfolding lookup_name_def n using ns by (simp add: Load_Store)
    then show ?thesis using ns by simp
  qed
next
  case False
  show ?thesis
  proof (cases "Load (names sc) (Namespace (h p))")
    case None
    have n: "names (fst (setServices_body h p (sc, L))) = names sc"
      using False None by (simp add: body_names)
    have "lookup_name sc (Namespace (h p)) (Name (h p)) = None"
      using None by (simp add: lookup_name_def)
    then show ?thesis using False by (auto simp: lookup_name_def n)
  next
    case (Some spaces)
    have n: "names (fst (setServices_body h p (sc, L))) =
               Store (Namespace (h p)) (Delete (Name (h p)) spaces) (names sc)"
      using False Some by (simp add: body_names)
    show ?thesis
    proof (cases "ns = Namespace (h p)")
      case ns: True
      have "lookup_name (fst (setServices_body h p (sc, L))) ns n
              = Load (Delete (Name (h p)) spaces) n"
        unfolding lookup_name_def n using ns by (simp add: Load_Store)
      also have "\<dots> = (if n = Name (h p) then None else lookup_name sc (Namespace (h p)) n)"
        using Some by (simp add: Load_Delete lookup_name_def)
      finally show ?thesis using False ns by simp
    next
      case ns: False
      have "lookup_name (fst (setServices_body h p (sc, L))) ns n = lookup_name sc ns n"
        unfolding lookup_name_def n using ns by (simp add: Load_Store)
      then show ?thesis using ns by simp
    qed
  qed
qed

lemma consistent_with_iff:
  "consistent_with h sc p \<longleftrightarrow>
     (\<forall>q. Load (ids sc) (ID (h p)) = Some q \<longrightarrow>
        Namespace (h q) = Namespace (h p) \<and> Name (h q) = Name (h p)) \<and>
     (\<forall>q. lookup_name sc (Namespace (h p)) (Name (h p)) = Some q \<longrightarrow> ID (h q) = ID (h p))"
  by (auto simp: consistent_with_def split: option.splits)

lemma agree_step:
  assumes "indices_agree h sc" and "consistent_with h sc p"
      and ids': "\<And>i. Load (ids sc') i = (if i = ID (h p) then v else Load (ids sc) i)"
      and names': "\<And>ns n. lookup_name sc' ns n =
                     (if ns = Namespace (h p) \<and> n = Name (h p) then v else lookup_name sc ns n)"
      and v: "v = None \<or> v = Some p"
  shows "indices_agree h sc'"
proof -
  from assms(1) have a: "\<And>i q. Load (ids sc) i = Some q \<Longrightarrow>
        ID (h q) = i \<and> lookup_name sc (Namespace (h q)) (Name (h q)) = Some q"
    and b: "\<And>ns n q. lookup_name sc ns n = Some q \<Longrightarrow>
        Namespace (h q) = ns \<and> Name (h q) = n \<and> Load (ids sc) (ID (h q)) = Some q"
    unfolding indices_agree_iff by blast+
  from assms(2) have c1: "\<And>q. Load (ids sc) (ID (h p)) = Some q \<Longrightarrow>
        Namespace (h q) = Namespace (h p) \<and> Name (h q) = Name (h p)"
    and c2: "\<And>q. lookup_name sc (Namespace (h p)) (Name (h p)) = Some q \<Longrightarrow> ID (h q) = ID (h p)"
    unfolding consistent_with_iff by blast+
  have A: "ID (h q) = i \<and> lookup_name sc' (Namespace (h q)) (Name (h q)) = Some q"
    if l: "Load (ids sc') i = Some q" for i q
  proof (cases "i = ID (h p)")
    case True
    with l v have "v = Some p" "q = p" by (auto simp: ids')
    then show ?thesis using True by (simp add: names')
  next
    case False
    with l have o: "Load (ids sc) i = Some q" by (simp add: ids')
    from a[OF o] have i: "ID (h q) = i"
      and n: "lookup_name sc (Namespace (h q)) (Name (h q)) = Some q" by blast+
    have "\<not> (Namespace (h q) = Namespace (h p) \<and> Name (h q) = Name (h p))"
    proof
      assume e: "Namespace (h q) = Namespace (h p) \<and> Name (h q) = Name (h p)"
      with n have "lookup_name sc (Namespace (h p)) (Name (h p)) = Some q" by simp
      from c2[OF this] i False show False by simp
    qed
    then show ?thesis using i n by (auto simp: names')
  qed
  have B: "Namespace (h q) = ns \<and> Name (h q) = n \<and> Load (ids sc') (ID (h q)) = Some q"
    if l: "lookup_name sc' ns n = Some q" for ns n q
  proof (cases "ns = Namespace (h p) \<and> n = Name (h p)")
    case True
    with l v have "v = Some p" "q = p" by (auto simp: names')
    then show ?thesis using True by (simp add: ids')
  next
    case False
    with l have o: "lookup_name sc ns n = Some q" by (auto simp: names')
    from b[OF o] have k: "Namespace (h q) = ns" "Name (h q) = n"
      and i: "Load (ids sc) (ID (h q)) = Some q" by blast+
    have "ID (h q) \<noteq> ID (h p)"
    proof
      assume e: "ID (h q) = ID (h p)"
      with i have "Load (ids sc) (ID (h p)) = Some q" by simp
      from c1[OF this] k False show False by simp
    qed
    then show ?thesis using k i by (simp add: ids')
  qed
  show ?thesis
    unfolding indices_agree_iff using A B by blast
qed

lemma body_agree:
  assumes "indices_agree h sc" and "consistent_with h sc p"
  shows "indices_agree h (fst (setServices_body h p (sc, L)))"
  by (rule agree_step[OF assms, where v = "if Valid (h p) then Some p else None"])
     (simp_all add: body_Load_ids body_lookup_name)

lemma removeServices_lookup_name:
  "lookup_name (removeServices h sc p) ns n =
     (if ns = Namespace (h p) \<and> n = Name (h p) then None else lookup_name sc ns n)"
proof (cases "Load (names sc) (Namespace (h p))")
  case None
  have "lookup_name sc (Namespace (h p)) (Name (h p)) = None"
    using None by (simp add: lookup_name_def)
  then show ?thesis using None by (auto simp: lookup_name_def removeServices_names)
next
  case (Some spaces)
  have n: "names (removeServices h sc p) =
             Store (Namespace (h p)) (Delete (Name (h p)) spaces) (names sc)"
    using Some by (simp add: removeServices_names)
  show ?thesis
  proof (cases "ns = Namespace (h p)")
    case True
    have "lookup_name (removeServices h sc p) ns n = Load (Delete (Name (h p)) spaces) n"
      unfolding lookup_name_def n using True by (simp add: Load_Store)
    also have "\<dots> = (if n = Name (h p) then None else lookup_name sc (Namespace (h p)) n)"
      using Some by (simp add: Load_Delete lookup_name_def)
    finally show ?thesis using True by simp
  next
    case False
    have "lookup_name (removeServices h sc p) ns n = lookup_name sc ns n"
      unfolding lookup_name_def n using False by (simp add: Load_Store)
    then show ?thesis using False by simp
  qed
qed

lemma removeServices_agree:
  assumes "indices_agree h sc" and "consistent_with h sc p"
  shows "indices_agree h (removeServices h sc p)"
  by (rule agree_step[OF assms, where v = None])
     (simp_all add: removeServices_ids Load_Delete removeServices_lookup_name)

lemma fill_agree:
  "indices_agree h sc \<Longrightarrow> indices_agree (fillServicePorts inst h p) sc"
  using fillServicePorts_identity[of inst h p]
  unfolding indices_agree_iff same_identity_def by simp

lemma body_consistent:
  assumes "consistent_with h sc q" and "key_consistent (h p) (h q)"
  shows "consistent_with h (fst (setServices_body h p (sc, L))) q"
proof -
  let ?sc' = "fst (setServices_body h p (sc, L))"
  from assms(1) have c1: "\<And>r. Load (ids sc) (ID (h q)) = Some r \<Longrightarrow>
        Namespace (h r) = Namespace (h q) \<and> Name (h r) = Name (h q)"
    and c2: "\<And>r. lookup_name sc (Namespace (h q)) (Name (h q)) = Some r \<Longrightarrow> ID (h r) = ID (h q)"
    unfolding consistent_with_iff by blast+
  from assms(2) have k: "(ID (h p) = ID (h q)) = (Namespace (h p) = Namespace (h q) \<and>
                                                  Name (h p) = Name (h q))"
    by (simp add: key_consistent_def)
  have A: "Namespace (h r) = Namespace (h q) \<and> Name (h r) = Name (h q)"
    if l: "Load (ids ?sc') (ID (h q)) = Some r" for r
  proof (cases "ID (h q) = ID (h p)")
    case True
    with l have "r = p" by (auto simp: body_Load_ids split: if_splits)
    then show ?thesis using True k by simp
  next
    case False
    with l have "Load (ids sc) (ID (h q)) = Some r" by (simp add: body_Load_ids)
    then show ?thesis by (rule c1)
  qed
  have B: "ID (h r) = ID (h q)"
    if l: "lookup_name ?sc' (Namespace (h q)) (Name (h q)) = Some r" for r
  proof (cases "Namespace (h q) = Namespace (h p) \<and> Name (h q) = Name (h p)")
    case True
    with l have "r = p" by (auto simp: body_lookup_name split: if_splits)
    then show ?thesis using True k by simp
  next
    case False
    with l have "lookup_name sc (Namespace (h q)) (Name (h q)) = Some r"
      by (auto simp: body_lookup_name)
    then show ?thesis by (rule c2)
  qed
  show ?thesis unfolding consistent_with_iff using A B by blast
qed

lemma loop_agree:
  "indices_agree h sc \<Longrightarrow> \<forall>p\<in>set ps. consistent_with h sc p \<Longrightarrow>
   \<forall>p\<in>set ps. \<forall>q\<in>set ps. key_consistent (h p) (h q) \<Longrightarrow>
   indices_agree h (fst (setServices_loop h ps (sc, L)))"
proof (induction ps arbitrary: sc L)
  case Nil
  then show ?case by simp
next
  case (Cons p ps)
  obtain sc' L' where b: "setServices_body h p (sc, L) = (sc', L')"
    by (cases "setServices_body h p (sc, L)")
  have 1: "indices_agree h sc'"
    using body_agree[of h sc p L] Cons.prems(1,2) b by simp
  have 2: "\<forall>q\<in>set ps. consistent_with h sc' q"
    using body_consistent[of h sc _ p L] Cons.prems(2,3) b by simp
  have 3: "\<forall>p\<in>set ps. \<forall>q\<in>set ps. key_consistent (h p) (h q)"
    using Cons.prems(3) by simp
  show ?case using Cons.IH[OF 1 2 3, of L'] b by simp
qed

text \<open>
  C4, as the code has it: the two indices agree after \<open>initialize\<close> and after \<open>clear\<close>
  (both are empty). Agreement is kept by a merge whose entities are consistent with the
  cache and key-consistent with one another (identifier and (namespace, name) determine
  each other), by the removal of an entity that is consistent with the cache, and by the
  lazy enrichment of the lookups. Where the indices agree, an entity found in one index
  is found in the other, and both hold the same pointer. Nothing is claimed for
  \<open>CleanNamespace\<close> and for the cache-miss load, which write one index only.
\<close>

theorem indices_agree_invariant:
  "indices_agree h (initialize sca opt) \<and>
   indices_agree h (clear sca) \<and>
   (indices_agree h sc \<longrightarrow>
      (list_all (consistent_with h sc) (map snd services) \<and>
       list_all (\<lambda>p. list_all (\<lambda>q. key_consistent (h p) (h q)) (map snd services))
         (map snd services) \<longrightarrow>
         indices_agree h (fst (setServices inst h sc services))) \<and>
      (consistent_with h sc p \<longrightarrow> indices_agree h (removeServices h sc p)) \<and>
      indices_agree (fillServicePorts inst h p) sc \<and>
      (\<forall>i q. Load (ids sc) i = Some q \<longrightarrow>
         ID (h q) = i \<and> lookup_name sc (Namespace (h q)) (Name (h q)) = Some q) \<and>
      (\<forall>ns n q. lookup_name sc ns n = Some q \<longrightarrow>
         Namespace (h q) = ns \<and> Name (h q) = n \<and> Load (ids sc) (ID (h q)) = Some q))"
proof -
  have i: "indices_agree h (initialize sca opt)"
    by (cases opt) (simp_all add: indices_agree_def initialize_def NewSyncMap_def)
  have c: "indices_agree h (clear sca)"
    by (simp add: indices_agree_def clear_def baseCache_clear_def NewSyncMap_def)
  have m: "indices_agree h (fst (setServices inst h sc services))"
    if a: "indices_agree h sc"
      and c: "list_all (consistent_with h sc) (map snd services)"
      and k: "list_all (\<lambda>p. list_all (\<lambda>q. key_consistent (h p) (h q)) (map snd services))
                (map snd services)"
  proof (cases "services = []")
    case True
    then show ?thesis using a by (simp add: setServices_def)
  next
    case False
    obtain sc1 L where l: "setServices_loop h (map snd services) (sc, initLocals sc) = (sc1, L)"
      by (cases "setServices_loop h (map snd services) (sc, initLocals sc)")
    have c': "\<forall>p\<in>set (map snd services). consistent_with h sc p"
      using c unfolding list_all_iff by blast
    have k': "\<forall>p\<in>set (map snd services). \<forall>q\<in>set (map snd services).
                key_consistent (h p) (h q)"
      using k unfolding list_all_iff by blast
    have "indices_agree h (fst (setServices_loop h (map snd services) (sc, initLocals sc)))"
      by (rule loop_agree[OF a c' k'])
    then have "indices_agree h sc1" using l by simp
    moreover have "indices_agree h (fst (setServices inst h sc services)) = indices_agree h sc1"
      by (rule indices_agree_cong[OF setServices_parts(1,2)[OF False l]])
    ultimately show ?thesis by simp
  qed
  have r: "consistent_with h sc p \<longrightarrow> indices_agree h (removeServices h sc p)"
    if "indices_agree h sc"
    using that removeServices_agree[of h sc p] by blast
  have f: "indices_agree (fillServicePorts inst h p) sc" if "indices_agree h sc"
    using that by (rule fill_agree)
  have s: "(\<forall>i q. Load (ids sc) i = Some q \<longrightarrow>
         ID (h q) = i \<and> lookup_name sc (Namespace (h q)) (Name (h q)) = Some q) \<and>
      (\<forall>ns n q. lookup_name sc ns n = Some q \<longrightarrow>
         Namespace (h q) = ns \<and> Name (h q) = n \<and> Load (ids sc) (ID (h q)) = Some q)"
    if "indices_agree h sc"
    using that unfolding indices_agree_iff .
  show ?thesis
    apply (intro conjI impI)
          apply (rule i)
         apply (rule c)
        apply (erule m; blast)
       apply (drule r; blast)
      apply (erule f)
     apply (drule s; blast)
    apply (drule s; blast)
    done
qed

theorem indices_agree_invariant_witness:
  "indices_agree ex_heap ex_cache \<and>
   indices_agree ex_heap
     (fst (setServices ex_inst ex_heap ex_two [(''id-a'', 4), (''id-d'', 6), (''id-b'', 2)])) \<and>
   indices_agree ex_heap (removeServices ex_heap ex_two 4) \<and>
   indices_agree (fillServicePorts ex_inst ex_heap 1) ex_two \<and>
   lookup_name ex_two ''default'' ''a'' = Some 1"
proof -
  let ?b = "[(''id-a'', 4::nat), (''id-d'', 6), (''id-b'', 2)]"
  note t = indices_agree_invariant
             [where h = ex_heap and sca = newServiceCache and opt = None and sc = ex_two
                and services = ?b and inst = ex_inst and p = 4]
  have a: "indices_agree ex_heap ex_two" by code_simp
  have c: "list_all (consistent_with ex_heap ex_two) (map snd ?b)" by code_simp
  have k: "list_all (\<lambda>p. list_all (\<lambda>q. key_consistent (ex_heap p) (ex_heap q)) (map snd ?b))
             (map snd ?b)" by code_simp
  have r: "consistent_with ex_heap ex_two 4" by code_simp
  have l: "Load (ids ex_two) ''id-a'' = Some 1" by code_simp
  have n: "Namespace (ex_heap 1) = ''default''" "Name (ex_heap 1) = ''a''"
    by (simp_all add: ex_heap_def ex_service_def)
  from t have r1: "indices_agree ex_heap ex_cache" by (simp add: ex_cache_def)
  from t a c k have r2: "indices_agree ex_heap (fst (setServices ex_inst ex_heap ex_two ?b))"
    by blast
  from t a r have r3: "indices_agree ex_heap (removeServices ex_heap ex_two 4)"
    by blast
  from t a have r4: "indices_agree (fillServicePorts ex_inst ex_heap 1) ex_two"
    using fill_agree by blast
  from t a l have "lookup_name ex_two (Namespace (ex_heap 1)) (Name (ex_heap 1)) = Some 1"
    by blast
  then have r5: "lookup_name ex_two ''default'' ''a'' = Some 1" by (simp only: n)
  from r1 r2 r3 r4 r5 show ?thesis by blast
qed

text \<open>
  The claim as stated fails. From the empty cache, the cache-miss load of \<open>id-a\<close> files
  the entity in the primary index only. From a cache that holds services 1 and 2 in both
  indices, \<open>CleanNamespace\<close> drops the namespace from the name index only; and the merge
  of a batch that soft-deletes service 1 and holds a live entity with a new identifier
  and the name of service 1, iterated with the live entity first, leaves that entity in
  the primary index and not in the name index.
\<close>

theorem indices_disagree_after_load_and_clean:
  "indices_agree ex_heap ex_cache \<and>
   \<not> indices_agree ex_heap
       (fst (snd (GetOrLoadServiceByID (\<lambda>i. (Some 1, None)) ex_inst ex_heap ex_cache ''id-a''))) \<and>
   indices_agree ex_heap ex_two \<and>
   \<not> indices_agree ex_heap (CleanNamespace ex_two ''default'') \<and>
   \<not> indices_agree ex_heap
       (fst (setServices ex_inst ex_heap ex_two [(''id-e'', 8), (''id-a'', 4)]))"
proof -
  let ?l = "fst (snd (GetOrLoadServiceByID (\<lambda>i. (Some 1, None)) ex_inst ex_heap ex_cache
                        ''id-a''))"
  let ?m = "fst (setServices ex_inst ex_heap ex_two [(''id-e'', 8), (''id-a'', 4)])"
  have r1: "indices_agree ex_heap ex_cache" by code_simp
  have e: "ids ex_cache = []"
    by (simp add: ex_cache_def initialize_def newServiceCache_def syncmap_defs)
  have i: "ID (ex_heap (Suc 0)) = ''id-a''" by (simp add: ex_heap_def ex_service_def)
  have "?l = ex_cache\<lparr>ids := [(''id-a'', 1)]\<rparr>"
    by (simp add: GetOrLoadServiceByID_def e i syncmap_defs split: option.splits)
  moreover have "\<not> indices_agree ex_heap (ex_cache\<lparr>ids := [(''id-a'', 1)]\<rparr>)"
    by code_simp
  ultimately have r2: "\<not> indices_agree ex_heap ?l" by simp
  have r3: "indices_agree ex_heap ex_two" by code_simp
  have r4: "\<not> indices_agree ex_heap (CleanNamespace ex_two ''default'')" by code_simp
  have mi: "ids ?m = [(''id-b'', 2), (''id-e'', 8)]" by code_simp
  have mn: "names ?m = [(''default'', [(''b'', 2)])]" by code_simp
  have "indices_agree ex_heap ?m
               = indices_agree ex_heap (ex_cache\<lparr>ids := [(''id-b'', 2), (''id-e'', 8)],
                                                 names := [(''default'', [(''b'', 2)])]\<rparr>)"
    by (rule indices_agree_cong) (simp_all add: mi mn)
  moreover have "\<not> indices_agree ex_heap (ex_cache\<lparr>ids := [(''id-b'', 2), (''id-e'', 8)],
                                                 names := [(''default'', [(''b'', 2)])]\<rparr>)"
    by code_simp
  ultimately have r5: "\<not> indices_agree ex_heap ?m" by simp
  from r1 r2 r3 r4 r5 show ?thesis by blast
qed

subsection \<open>Merging the same batch twice\<close>

text \<open>
  C2 fails on the running total. The cache holds services 1 and 2 with a running total
  of two; the batch soft-deletes service 1. The first merge removes the service and
  brings the total to one. The second merge of the same batch finds nothing to remove,
  leaves the primary index as it is, and still decrements the total: the loop runs
  \<open>svcCount--\<close> for every soft-deleted entity, without the existence check that guards
  \<open>svcCount++\<close>.
\<close>

theorem remerge_decrements_running_total:
  "ids (fst (setServices ex_inst ex_heap ex_two [(''id-a'', 4)])) = [(''id-b'', 2)] \<and>
   serviceCount (fst (setServices ex_inst ex_heap ex_two [(''id-a'', 4)])) = 1 \<and>
   ids (fst (setServices ex_inst ex_heap
               (fst (setServices ex_inst ex_heap ex_two [(''id-a'', 4)])) [(''id-a'', 4)]))
     = [(''id-b'', 2)] \<and>
   serviceCount (fst (setServices ex_inst ex_heap
                        (fst (setServices ex_inst ex_heap ex_two [(''id-a'', 4)])) [(''id-a'', 4)]))
     = 0 \<and>
   GetServicesCount (fst (setServices ex_inst ex_heap
                        (fst (setServices ex_inst ex_heap ex_two [(''id-a'', 4)])) [(''id-a'', 4)]))
     = 1"
  by code_simp

end
